theory Spec2Isabelle
  imports Complex_Main "HOL-Library.Word" "HOL-Library.List_Lexorder"
begin

section \<open>Strings\<close>

text \<open>
  A JavaScript string is a sequence of 16-bit code units. The regular expressions of the
  program have no \<open>u\<close> flag, so they work on code units too, and the relational
  operators on strings compare code units lexicographically: that is the order
  \<open>HOL-Library.List_Lexorder\<close> puts on lists of words.
\<close>

type_synonym jsstring = "16 word list"

definition js :: "string \<Rightarrow> jsstring" where
  "js s = map (\<lambda>c. of_nat (of_char c)) s"

definition LBRACKET :: "16 word" where "LBRACKET = 0x5B"
definition RBRACKET :: "16 word" where "RBRACKET = 0x5D"
definition NEWLINE :: "16 word" where "NEWLINE = 0x0A"

text \<open>
  The code units \<open>String.prototype.trim\<close> strips: the WhiteSpace and LineTerminator
  productions of ECMAScript.
\<close>

definition isWhiteSpace :: "16 word \<Rightarrow> bool" where
  "isWhiteSpace c \<longleftrightarrow>
     c = 0x09 \<or> c = 0x0A \<or> c = 0x0B \<or> c = 0x0C \<or> c = 0x0D \<or> c = 0x20 \<or> c = 0xA0 \<or>
     c = 0x1680 \<or> (0x2000 \<le> c \<and> c \<le> 0x200A) \<or> c = 0x2028 \<or> c = 0x2029 \<or>
     c = 0x202F \<or> c = 0x205F \<or> c = 0x3000 \<or> c = 0xFEFF"

definition trimStart :: "jsstring \<Rightarrow> jsstring" where
  "trimStart s = dropWhile isWhiteSpace s"

definition trimEnd :: "jsstring \<Rightarrow> jsstring" where
  "trimEnd s = rev (dropWhile isWhiteSpace (rev s))"

definition trim :: "jsstring \<Rightarrow> jsstring" where
  "trim s = trimEnd (trimStart s)"

section \<open>Answer parser (ChatArea)\<close>

text \<open>
  One attempt of \<open>/\[[^\]]+\]/\<close> at the start of a string: an opening bracket, the
  longest run of code units other than the closing bracket (which must not be empty), and
  a closing bracket. The result is the matched text and the rest of the string behind it.
  Backtracking into the run cannot help, since a shorter run is followed by a code unit
  that is not a closing bracket.
\<close>

definition matchBracket :: "jsstring \<Rightarrow> (jsstring \<times> jsstring) option" where
  "matchBracket s =
     (case s of
        [] \<Rightarrow> None
      | c # cs \<Rightarrow>
          if c \<noteq> LBRACKET then None
          else
            let inner = takeWhile (\<lambda>x. x \<noteq> RBRACKET) cs;
                after = dropWhile (\<lambda>x. x \<noteq> RBRACKET) cs
            in if inner = [] \<or> after = [] then None
               else Some (c # inner @ [RBRACKET], tl after))"

lemma matchBracket_shorter:
  "matchBracket s = Some (m, rest) \<Longrightarrow> length rest < length s"
proof -
  assume a: "matchBracket s = Some (m, rest)"
  then obtain c cs where s: "s = c # cs"
    by (cases s) (auto simp: matchBracket_def)
  from a s have "rest = tl (dropWhile (\<lambda>x. x \<noteq> RBRACKET) cs)"
    by (auto simp: matchBracket_def Let_def split: if_splits)
  moreover have "length (dropWhile (\<lambda>x. x \<noteq> RBRACKET) cs) \<le> length cs"
    by (rule length_dropWhile_le)
  ultimately show ?thesis using s by simp
qed

text \<open>\<open>answer.matchAll(/\[[^\]]+\]/g)\<close>: the matches from left to right, not overlapping.\<close>

function matchAll :: "jsstring \<Rightarrow> jsstring list" where
  "matchAll [] = []"
| "matchAll (c # cs) =
     (case matchBracket (c # cs) of
        Some (m, rest) \<Rightarrow> m # matchAll rest
      | None \<Rightarrow> matchAll cs)"
  by pat_completeness auto
termination
  by (relation "measure length") (auto dest: matchBracket_shorter)

text \<open>\<open>answer.replace(/\[[^\]]+\]/g, "")\<close>: the string without its matches.\<close>

function removeBrackets :: "jsstring \<Rightarrow> jsstring" where
  "removeBrackets [] = []"
| "removeBrackets (c # cs) =
     (case matchBracket (c # cs) of
        Some (m, rest) \<Rightarrow> removeBrackets rest
      | None \<Rightarrow> c # removeBrackets cs)"
  by pat_completeness auto
termination
  by (relation "measure length") (auto dest: matchBracket_shorter)

text \<open>
  \<open>.replace(/\n{3,}/g, "\n\n")\<close>: a maximal run of three or more newlines becomes two
  newlines; shorter runs stay.
\<close>

function collapseNewlines :: "jsstring \<Rightarrow> jsstring" where
  "collapseNewlines [] = []"
| "collapseNewlines (c # cs) =
     (if c = NEWLINE \<and> 2 \<le> length (takeWhile (\<lambda>x. x = NEWLINE) cs)
      then NEWLINE # NEWLINE # collapseNewlines (dropWhile (\<lambda>x. x = NEWLINE) cs)
      else c # collapseNewlines cs)"
  by pat_completeness auto
termination
  by (relation "measure length") (auto simp: less_Suc_eq_le length_dropWhile_le)

text \<open>
  The \<open>forEach\<close> over the matches: \<open>match[0].slice(1, -1).trim()\<close> is pushed onto
  \<open>references\<close> unless it is empty or already there.
\<close>

fun collectReferences :: "jsstring list \<Rightarrow> jsstring list \<Rightarrow> jsstring list" where
  "collectReferences references [] = references"
| "collectReferences references (m # ms) =
     (let ref = trim (butlast (tl m))
      in collectReferences
           (if ref \<noteq> [] \<and> ref \<notin> set references then references @ [ref] else references) ms)"

text \<open>\<open>parseAnswer\<close> returns the object \<open>{content, references}\<close>, here a pair.\<close>

definition parseAnswer :: "jsstring \<Rightarrow> jsstring \<times> jsstring list" where
  "parseAnswer answer =
     (let matches = matchAll answer;
          references = collectReferences [] matches;
          content = (if matches \<noteq> []
                     then trim (collapseNewlines (removeBrackets answer))
                     else trim answer)
      in (if content \<noteq> [] then content else trim answer, references))"

text \<open>
  For the proofs: the code units behind an opening bracket complete a match exactly when
  they start with a code unit other than the closing bracket and contain a closing bracket;
  a string is free of matches when no opening bracket in it is followed that way.
\<close>

definition matchesAt :: "jsstring \<Rightarrow> bool" where
  "matchesAt cs \<longleftrightarrow> cs \<noteq> [] \<and> hd cs \<noteq> RBRACKET \<and> RBRACKET \<in> set cs"

fun bracketFree :: "jsstring \<Rightarrow> bool" where
  "bracketFree [] = True"
| "bracketFree (c # cs) = ((c = LBRACKET \<longrightarrow> \<not> matchesAt cs) \<and> bracketFree cs)"

section \<open>Remote API (lib/api.ts)\<close>

text \<open>
  A value parsed from JSON. \<open>typeof\<close> and truthiness are the two tests the program makes
  on such values; \<open>None\<close> stands for \<open>undefined\<close>, the value of a missing property.
\<close>

datatype json =
    JNull
  | JBool bool
  | JNumber real
  | JString jsstring
  | JArray "json list"
  | JObject "(jsstring \<times> json) list"

datatype jstype = TUndefined | TObject | TBoolean | TNumber | TString

fun typeof :: "json option \<Rightarrow> jstype" where
  "typeof None = TUndefined"
| "typeof (Some JNull) = TObject"
| "typeof (Some (JBool b)) = TBoolean"
| "typeof (Some (JNumber n)) = TNumber"
| "typeof (Some (JString s)) = TString"
| "typeof (Some (JArray xs)) = TObject"
| "typeof (Some (JObject kvs)) = TObject"

fun truthy :: "json option \<Rightarrow> bool" where
  "truthy None = False"
| "truthy (Some JNull) = False"
| "truthy (Some (JBool b)) = b"
| "truthy (Some (JNumber n)) = (n \<noteq> 0)"
| "truthy (Some (JString s)) = (s \<noteq> [])"
| "truthy (Some (JArray xs)) = True"
| "truthy (Some (JObject kvs)) = True"

text \<open>The text of a value whose \<open>typeof\<close> is \<open>"string"\<close>; only read behind that test.\<close>

fun stringOf :: "json option \<Rightarrow> jsstring" where
  "stringOf (Some (JString s)) = s"
| "stringOf _ = []"

text \<open>The fields of \<open>QueryResponse\<close> the program reads. Their declared types are not
  checked at run time, which is why \<open>extractAnswer\<close> tests \<open>typeof\<close>.\<close>

record QueryResponse =
  answer :: "json option"
  response :: "json option"
  result :: "json option"
  data :: "json option"

record IndexDocumentsResponse =
  idx_message :: "jsstring option"

text \<open>
  What a \<open>catch\<close> clause can receive: an \<open>Error\<close> object with its message, or any other
  thrown value.
\<close>

datatype thrown = ErrorObject jsstring | OtherValue

text \<open>
  The outcome of \<open>fetch\<close>: the promise rejects, or it resolves to a response with its
  \<open>ok\<close> flag, its status and the outcome of \<open>response.json()\<close>.
\<close>

record 'a Response =
  ok :: bool
  statusCode :: nat
  json_body :: "thrown + 'a"

datatype 'a FetchOutcome = Rejected thrown | Resolved "'a Response"

text \<open>The decimal digits of a number, as a template literal prints it.\<close>

fun toString :: "nat \<Rightarrow> jsstring" where
  "toString n = (if n < 10 then [of_nat (48 + n)] else toString (n div 10) @ [of_nat (48 + n mod 10)])"

definition queryDocuments :: "QueryResponse FetchOutcome \<Rightarrow> thrown + QueryResponse" where
  "queryDocuments outcome =
     (case outcome of
        Rejected e \<Rightarrow> Inl e
      | Resolved r \<Rightarrow>
          if \<not> ok r
          then Inl (ErrorObject (js ''Query request failed with status '' @ toString (statusCode r)))
          else json_body r)"

definition indexDocuments ::
  "IndexDocumentsResponse FetchOutcome \<Rightarrow> thrown + IndexDocumentsResponse" where
  "indexDocuments outcome =
     (case outcome of
        Rejected e \<Rightarrow> Inl e
      | Resolved r \<Rightarrow>
          if \<not> ok r
          then Inl (ErrorObject (js ''Index request failed with status '' @ toString (statusCode r)))
          else json_body r)"

section \<open>Chat session (ChatArea)\<close>

datatype MessageRole = User | Assistant

datatype MessageStatus = Idle | Loading | Complete | Error

record MessageItem =
  msg_id :: jsstring
  role :: MessageRole
  content :: jsstring
  status :: MessageStatus
  createdAt :: jsstring
  references :: "jsstring list option"

text \<open>The fixed texts of the component, as code units.\<close>

definition NO_ANSWER :: jsstring where
  "NO_ANSWER =
     [0x4b, 0x68, 0xf4, 0x6e, 0x67, 0x20, 0x74, 0xec, 0x6d, 0x20, 0x74, 0x68, 0x1ea5, 0x79,
      0x20, 0x63, 0xe2, 0x75, 0x20, 0x74, 0x72, 0x1ea3, 0x20, 0x6c, 0x1edd, 0x69, 0x20, 0x70,
      0x68, 0xf9, 0x20, 0x68, 0x1ee3, 0x70, 0x20, 0x63, 0x68, 0x6f, 0x20, 0x63, 0xe2, 0x75,
      0x20, 0x68, 0x1ecf, 0x69, 0x20, 0x6e, 0xe0, 0x79, 0x2e]"

definition QUERY_FAILED :: jsstring where
  "QUERY_FAILED =
     [0x4b, 0x68, 0xf4, 0x6e, 0x67, 0x20, 0x74, 0x68, 0x1ec3, 0x20, 0x6c, 0x1ea5, 0x79, 0x20,
      0x63, 0xe2, 0x75, 0x20, 0x74, 0x72, 0x1ea3, 0x20, 0x6c, 0x1edd, 0x69, 0x20, 0x74, 0x1eeb,
      0x20, 0x68, 0x1ec7, 0x20, 0x74, 0x68, 0x1ed1, 0x6e, 0x67, 0x2e]"

definition TOAST_TITLE :: jsstring where
  "TOAST_TITLE =
     [0x4b, 0x68, 0xf4, 0x6e, 0x67, 0x20, 0x74, 0x68, 0x1ec3, 0x20, 0x67, 0x1eed, 0x69, 0x20,
      0x63, 0xe2, 0x75, 0x20, 0x68, 0x1ecf, 0x69]"

text \<open>
  \<open>extractAnswer\<close>, line by line. \<open>JSON.stringify(data.data, null, 2)\<close> is the platform's
  serialiser, a parameter here.
\<close>

definition extractAnswer :: "(json \<Rightarrow> jsstring) \<Rightarrow> QueryResponse \<Rightarrow> jsstring" where
  "extractAnswer stringify d =
     (if typeof (answer d) = TString \<and> trim (stringOf (answer d)) \<noteq> []
        then trim (stringOf (answer d))
      else if typeof (response d) = TString \<and> trim (stringOf (response d)) \<noteq> []
        then trim (stringOf (response d))
      else if typeof (result d) = TString \<and> trim (stringOf (result d)) \<noteq> []
        then trim (stringOf (result d))
      else if truthy (data d) \<and> typeof (data d) = TString \<and> trim (stringOf (data d)) \<noteq> []
        then trim (stringOf (data d))
      else if truthy (data d) \<and> typeof (data d) = TObject
        then (case data d of Some v \<Rightarrow> stringify v | None \<Rightarrow> NO_ANSWER)
      else NO_ANSWER)"

text \<open>
  The state of the component that \<open>handleSend\<close> reads and writes, and what it does to the
  outside: the remote query and the toast.
\<close>

record ChatArea =
  message :: jsstring
  messages :: "MessageItem list"
  isSending :: bool

datatype effect = QueryCall jsstring | Toast jsstring jsstring

text \<open>
  What \<open>handleSend\<close> gets from its environment during one call: the clock, the two results
  of \<open>generateId\<close>, and the outcome of \<open>fetch\<close> for the question sent.
\<close>

record SendEnv =
  now :: jsstring
  userMessageId :: jsstring
  assistantMessageId :: jsstring
  fetch :: "jsstring \<Rightarrow> QueryResponse FetchOutcome"

definition userMessage :: "SendEnv \<Rightarrow> jsstring \<Rightarrow> MessageItem" where
  "userMessage env question =
     \<lparr>msg_id = userMessageId env, role = User, content = question, status = Complete,
      createdAt = now env, references = None\<rparr>"

definition pendingAssistant :: "SendEnv \<Rightarrow> MessageItem" where
  "pendingAssistant env =
     \<lparr>msg_id = assistantMessageId env, role = Assistant, content = [], status = Loading,
      createdAt = now env, references = Some []\<rparr>"

text \<open>The state after the three setters that precede the \<open>try\<close> block.\<close>

definition acceptSend :: "SendEnv \<Rightarrow> jsstring \<Rightarrow> ChatArea \<Rightarrow> ChatArea" where
  "acceptSend env question st =
     st\<lparr>messages := messages st @ [userMessage env question, pendingAssistant env],
        message := [],
        isSending := True\<rparr>"

text \<open>
  The \<open>try\<close>/\<open>catch\<close>/\<open>finally\<close> of \<open>handleSend\<close>, after the remote call has settled with
  \<open>outcome\<close>. Both branches map over the message list and change the items whose id is the
  placeholder's; \<open>finally\<close> clears \<open>isSending\<close>.
\<close>

definition settleSend ::
  "(json \<Rightarrow> jsstring) \<Rightarrow> jsstring \<Rightarrow> thrown + QueryResponse \<Rightarrow> ChatArea \<Rightarrow> ChatArea \<times> effect list"
where
  "settleSend stringify assistantId outcome st =
     (case outcome of
        Inr resp \<Rightarrow>
          (let (c, refs) = parseAnswer (extractAnswer stringify resp)
           in (st\<lparr>messages :=
                     map (\<lambda>item. if msg_id item = assistantId
                                  then item\<lparr>content := c, status := Complete, references := Some refs\<rparr>
                                  else item) (messages st),
                  isSending := False\<rparr>,
               []))
      | Inl err \<Rightarrow>
          (let description = (case err of ErrorObject m \<Rightarrow> m | OtherValue \<Rightarrow> QUERY_FAILED)
           in (st\<lparr>messages :=
                     map (\<lambda>item. if msg_id item = assistantId
                                  then item\<lparr>content := description, status := Error, references := Some []\<rparr>
                                  else item) (messages st),
                  isSending := False\<rparr>,
               [Toast TOAST_TITLE description])))"

text \<open>
  \<open>handleSend(payload)\<close> with the value of the \<open>isReady\<close> prop: the final state and the
  effects issued, in order.
\<close>

definition handleSend ::
  "(json \<Rightarrow> jsstring) \<Rightarrow> SendEnv \<Rightarrow> bool \<Rightarrow> jsstring option \<Rightarrow> ChatArea \<Rightarrow> ChatArea \<times> effect list"
where
  "handleSend stringify env isReady payload st =
     (let question = trim (case payload of Some p \<Rightarrow> p | None \<Rightarrow> message st)
      in if question = [] \<or> \<not> isReady \<or> isSending st then (st, [])
         else
           (let (st', effects) =
                  settleSend stringify (assistantMessageId env)
                    (queryDocuments (fetch env question)) (acceptSend env question st)
            in (st', QueryCall question # effects)))"

text \<open>
  The priority order in the words of the specification: the first of the fields
  \<open>answer\<close>, \<open>response\<close>, \<open>result\<close>, \<open>data\<close> that holds a string with something
  other than white space in it, trimmed; failing that the serialised \<open>data\<close> when it is
  an array or an object; failing that the fixed text.
\<close>

definition usableText :: "json option \<Rightarrow> jsstring option" where
  "usableText v =
     (case v of Some (JString s) \<Rightarrow> if trim s = [] then None else Some (trim s) | _ \<Rightarrow> None)"

definition answerByPriority :: "(json \<Rightarrow> jsstring) \<Rightarrow> QueryResponse \<Rightarrow> jsstring" where
  "answerByPriority stringify d =
     (case List.map_filter usableText [answer d, response d, result d, data d] of
        t # _ \<Rightarrow> t
      | [] \<Rightarrow>
          (case data d of
             Some (JArray xs) \<Rightarrow> stringify (JArray xs)
           | Some (JObject kvs) \<Rightarrow> stringify (JObject kvs)
           | _ \<Rightarrow> NO_ANSWER))"

text \<open>The description shown for a failure, for the proofs.\<close>

definition describe :: "thrown \<Rightarrow> jsstring" where
  "describe err = (case err of ErrorObject m \<Rightarrow> m | OtherValue \<Rightarrow> QUERY_FAILED)"

text \<open>Concrete inputs for the examples below.\<close>

definition exampleChat :: ChatArea where
  "exampleChat = \<lparr>message = [], messages = [], isSending = False\<rparr>"

definition exampleEnv :: "QueryResponse FetchOutcome \<Rightarrow> SendEnv" where
  "exampleEnv outcome =
     \<lparr>now = js ''2024-05-01T10:00:00.000Z'', userMessageId = js ''u1'',
      assistantMessageId = js ''a1'', fetch = (\<lambda>question. outcome)\<rparr>"

definition parisResponse :: QueryResponse where
  "parisResponse = \<lparr>answer = Some (JString (js ''Paris'')), response = None, result = None, data = None\<rparr>"

section \<open>Dashboard\<close>

record IndexedDocument =
  doc_id :: jsstring
  doc_name :: jsstring
  doc_size :: nat
  indexedAt :: "jsstring option"

record File =
  file_name :: jsstring
  file_size :: nat

record Conversation =
  conv_id :: jsstring
  title :: jsstring
  model :: jsstring
  timestamp :: jsstring

text \<open>
  The interface declares \<open>indexedAt: string\<close>, but documents read back from storage are
  not checked and the program guards every read (\<open>doc.indexedAt ?? ""\<close>,
  \<open>doc.indexedAt && \<dots>\<close>), so the field is optional here. A document conforms to the
  declared type when the field is present.
\<close>

definition orEmpty :: "jsstring option \<Rightarrow> jsstring" where
  "orEmpty v = (case v of Some t \<Rightarrow> t | None \<Rightarrow> [])"

definition wellTyped :: "IndexedDocument \<Rightarrow> bool" where
  "wellTyped doc \<longleftrightarrow> indexedAt doc \<noteq> None"

subsection \<open>Merging indexed documents\<close>

text \<open>\<open>Array.prototype.findIndex\<close>: the first index whose element passes, or \<open>-1\<close>.\<close>

fun findIndex :: "('a \<Rightarrow> bool) \<Rightarrow> 'a list \<Rightarrow> int" where
  "findIndex P [] = - 1"
| "findIndex P (x # xs) =
     (if P x then 0 else (let i = findIndex P xs in if i < 0 then - 1 else i + 1))"

text \<open>The body of the \<open>forEach\<close>: replace the first document of that name, or push.\<close>

definition upsert :: "IndexedDocument \<Rightarrow> IndexedDocument list \<Rightarrow> IndexedDocument list" where
  "upsert doc combined =
     (let existingIndex = findIndex (\<lambda>item. doc_name item = doc_name doc) combined
      in if 0 \<le> existingIndex then combined[nat existingIndex := doc] else combined @ [doc])"

text \<open>
  \<open>Array.prototype.sort\<close> is stable. With a comparator that is a consistent ordering, its
  result is the one of insertion sort: \<open>a\<close> stays in front of \<open>b\<close> when
  \<open>compare a b \<le> 0\<close>.
\<close>

fun insertBy :: "('a \<Rightarrow> 'a \<Rightarrow> int) \<Rightarrow> 'a \<Rightarrow> 'a list \<Rightarrow> 'a list" where
  "insertBy compare x [] = [x]"
| "insertBy compare x (y # ys) =
     (if compare x y \<le> 0 then x # y # ys else y # insertBy compare x ys)"

definition sortBy :: "('a \<Rightarrow> 'a \<Rightarrow> int) \<Rightarrow> 'a list \<Rightarrow> 'a list" where
  "sortBy compare xs = foldr (insertBy compare) xs []"

text \<open>
  \<open>String.prototype.localeCompare\<close> is the platform's collation, a parameter
  \<open>localeCompare\<close> of everything that sorts. What the proofs need of it is that it is
  a consistent ordering: any two strings are comparable, and the comparison is transitive.
\<close>

definition collation :: "(jsstring \<Rightarrow> jsstring \<Rightarrow> int) \<Rightarrow> bool" where
  "collation localeCompare \<longleftrightarrow>
     (\<forall>a b. localeCompare a b \<le> 0 \<or> localeCompare b a \<le> 0) \<and>
     (\<forall>a b c. localeCompare a b \<le> 0 \<and> localeCompare b c \<le> 0 \<longrightarrow> localeCompare a c \<le> 0)"

text \<open>The comparison of code units, which is how the locale collates ISO-8601 timestamps.\<close>

definition codeUnitCompare :: "jsstring \<Rightarrow> jsstring \<Rightarrow> int" where
  "codeUnitCompare a b = (if a < b then - 1 else if a = b then 0 else 1)"

text \<open>The comparator handed to \<open>sort\<close>.\<close>

definition compareDocuments ::
  "(jsstring \<Rightarrow> jsstring \<Rightarrow> int) \<Rightarrow> IndexedDocument \<Rightarrow> IndexedDocument \<Rightarrow> int" where
  "compareDocuments localeCompare a b =
     localeCompare (orEmpty (indexedAt b)) (orEmpty (indexedAt a))"

text \<open>The updater passed to \<open>setDocuments\<close> in \<open>handleIndexDocuments\<close>.\<close>

definition mergeDocuments ::
  "(jsstring \<Rightarrow> jsstring \<Rightarrow> int) \<Rightarrow> IndexedDocument list \<Rightarrow> IndexedDocument list \<Rightarrow> IndexedDocument list"
where
  "mergeDocuments localeCompare prev indexedDocuments =
     sortBy (compareDocuments localeCompare) (fold upsert indexedDocuments prev)"

text \<open>A sequence of merges, each into the result of the one before, from the empty list.\<close>

definition mergeAll ::
  "(jsstring \<Rightarrow> jsstring \<Rightarrow> int) \<Rightarrow> IndexedDocument list list \<Rightarrow> IndexedDocument list" where
  "mergeAll localeCompare batches =
     fold (\<lambda>indexedDocuments prev. mergeDocuments localeCompare prev indexedDocuments) batches []"

text \<open>For the proofs: the last document of a list that has a given name.\<close>

definition lastNamed :: "IndexedDocument list \<Rightarrow> jsstring \<Rightarrow> IndexedDocument option" where
  "lastNamed ds x = List.find (\<lambda>d. doc_name d = x) (rev ds)"

text \<open>A document for the examples below; an empty time stands for an absent \<open>indexedAt\<close>.\<close>

definition exampleDocument :: "string \<Rightarrow> string \<Rightarrow> string \<Rightarrow> IndexedDocument" where
  "exampleDocument i n t =
     \<lparr>doc_id = js i, doc_name = js n, doc_size = 1024,
      indexedAt = (if t = [] then None else Some (js t))\<rparr>"

subsection \<open>State and effects\<close>

record Dashboard =
  isIndexing :: bool
  isReady :: bool
  documents :: "IndexedDocument list"
  lastIndexedAt :: "jsstring option"
  lastMessage :: "jsstring option"

text \<open>The initial values of the \<open>useState\<close> calls.\<close>

definition initialDashboard :: Dashboard where
  "initialDashboard =
     \<lparr>isIndexing = False, isReady = True, documents = [], lastIndexedAt = None,
      lastMessage = None\<rparr>"

text \<open>
  The callback of the \<open>reduce\<close>. A string is truthy when it is not empty; \<open>>\<close> between
  strings compares code units, and is false when an operand is \<open>undefined\<close>.
\<close>

definition truthyString :: "jsstring option \<Rightarrow> bool" where
  "truthyString v \<longleftrightarrow> v \<noteq> None \<and> v \<noteq> Some []"

definition greater :: "jsstring option \<Rightarrow> jsstring option \<Rightarrow> bool" where
  "greater a b = (case (a, b) of (Some x, Some y) \<Rightarrow> y < x | _ \<Rightarrow> False)"

definition latestOf :: "jsstring option \<Rightarrow> IndexedDocument \<Rightarrow> jsstring option" where
  "latestOf latest doc =
     (if \<not> truthyString latest \<or> (truthyString (indexedAt doc) \<and> greater (indexedAt doc) latest)
      then indexedAt doc else latest)"

text \<open>The effect on \<open>[documents]\<close> that derives \<open>lastIndexedAt\<close>.\<close>

definition latestIndexedAt :: "IndexedDocument list \<Rightarrow> jsstring option" where
  "latestIndexedAt docs =
     fold (\<lambda>doc latest. latestOf latest doc) docs
       (Some (case docs of [] \<Rightarrow> [] | doc # _ \<Rightarrow> orEmpty (indexedAt doc)))"

definition latestIndexedAtEffect :: "Dashboard \<Rightarrow> Dashboard" where
  "latestIndexedAtEffect st =
     (if documents st = [] then st
      else st\<lparr>lastIndexedAt := latestIndexedAt (documents st)\<rparr>)"

text \<open>
  The two persistence effects. \<open>localStorage\<close> is a map from keys to strings;
  \<open>hasWindow\<close> is the test \<open>typeof window !== "undefined"\<close>; \<open>JSON.stringify\<close> is a
  parameter.
\<close>

type_synonym storage = "jsstring \<rightharpoonup> jsstring"

definition DOCUMENT_STORAGE_KEY :: jsstring where
  "DOCUMENT_STORAGE_KEY = js ''indexed-documents''"

definition CONVERSATION_STORAGE_KEY :: jsstring where
  "CONVERSATION_STORAGE_KEY = js ''conversations''"

definition persistDocuments ::
  "bool \<Rightarrow> (IndexedDocument list \<Rightarrow> jsstring) \<Rightarrow> IndexedDocument list \<Rightarrow> storage \<Rightarrow> storage" where
  "persistDocuments hasWindow stringify docs localStorage =
     (if \<not> hasWindow then localStorage
      else localStorage(DOCUMENT_STORAGE_KEY \<mapsto> stringify docs))"

definition persistConversations ::
  "bool \<Rightarrow> (Conversation list \<Rightarrow> jsstring) \<Rightarrow> Conversation list \<Rightarrow> storage \<Rightarrow> storage" where
  "persistConversations hasWindow stringify conversations localStorage =
     (if \<not> hasWindow \<or> length conversations = 0 then localStorage
      else localStorage(CONVERSATION_STORAGE_KEY \<mapsto> stringify conversations))"

subsection \<open>Indexing lifecycle\<close>

text \<open>
  \<open>handleIndexDocuments\<close> runs in two synchronous blocks: from its entry to the
  \<open>await\<close> of the request, and from the settling of the request through \<open>try\<close> or
  \<open>catch\<close> and \<open>finally\<close> to its end. The setters called in a block only request
  updates; the component has its next state when the block is left, so the states of a
  call are the one in which the request is awaited and the one after the call. The
  environment supplies the clock, the results of \<open>generateId\<close> (by position of the
  file) and the collation.
\<close>

record IndexEnv =
  completedAt :: jsstring
  generateId :: "nat \<Rightarrow> jsstring"
  localeCompare :: "jsstring \<Rightarrow> jsstring \<Rightarrow> int"

text \<open>The block before the \<open>await\<close>: \<open>setIsIndexing(true); setIsReady(false)\<close>.\<close>

definition indexEntry :: "Dashboard \<Rightarrow> Dashboard" where
  "indexEntry st = st\<lparr>isIndexing := True, isReady := False\<rparr>"

definition indexedDocumentsOf :: "IndexEnv \<Rightarrow> File list \<Rightarrow> IndexedDocument list" where
  "indexedDocumentsOf env files =
     map (\<lambda>(i, file).
            \<lparr>doc_id = generateId env i, doc_name = file_name file, doc_size = file_size file,
             indexedAt = Some (completedAt env)\<rparr>)
         (enumerate 0 files)"

text \<open>
  The setters of the \<open>try\<close> block after the \<open>await\<close>: \<open>setDocuments\<close>,
  \<open>setLastIndexedAt\<close>, \<open>setLastMessage\<close>, \<open>setIsReady(true)\<close>.
\<close>

definition indexSuccess ::
  "IndexEnv \<Rightarrow> File list \<Rightarrow> IndexDocumentsResponse \<Rightarrow> Dashboard \<Rightarrow> Dashboard" where
  "indexSuccess env files resp st =
     st\<lparr>documents := mergeDocuments (localeCompare env) (documents st) (indexedDocumentsOf env files),
        lastIndexedAt := Some (completedAt env),
        lastMessage := idx_message resp,
        isReady := True\<rparr>"

text \<open>The success path of the earlier version of the page appends without merging.\<close>

definition indexSuccessAppend ::
  "IndexEnv \<Rightarrow> File list \<Rightarrow> IndexDocumentsResponse \<Rightarrow> Dashboard \<Rightarrow> Dashboard" where
  "indexSuccessAppend env files resp st =
     st\<lparr>documents := documents st @ indexedDocumentsOf env files,
        lastIndexedAt := Some (completedAt env),
        lastMessage := idx_message resp,
        isReady := True\<rparr>"

text \<open>The \<open>finally\<close> block: \<open>setIsIndexing(false); setIsReady(true)\<close>.\<close>

definition indexFinally :: "Dashboard \<Rightarrow> Dashboard" where
  "indexFinally st = st\<lparr>isIndexing := False, isReady := True\<rparr>"

text \<open>
  The block after the \<open>await\<close>, from the state in which the request was awaited: on
  success the setters of the \<open>try\<close> block and then \<open>finally\<close>, on failure \<open>finally\<close>
  alone (\<open>catch\<close> only throws again). \<open>success\<close> is the success path of the version of
  the page at hand.
\<close>

definition indexSettle ::
  "(IndexDocumentsResponse \<Rightarrow> Dashboard \<Rightarrow> Dashboard) \<Rightarrow> thrown + IndexDocumentsResponse \<Rightarrow>
   Dashboard \<Rightarrow> Dashboard" where
  "indexSettle success outcome awaiting =
     (case outcome of
        Inr resp \<Rightarrow> indexFinally (success resp awaiting)
      | Inl err \<Rightarrow> indexFinally awaiting)"

text \<open>The states of one call, after the state it starts in.\<close>

definition indexTrace ::
  "(IndexDocumentsResponse \<Rightarrow> Dashboard \<Rightarrow> Dashboard) \<Rightarrow> thrown + IndexDocumentsResponse \<Rightarrow>
   Dashboard \<Rightarrow> Dashboard list" where
  "indexTrace success outcome st =
     [indexEntry st, indexSettle success outcome (indexEntry st)]"

text \<open>
  The call itself: the final state, and what the promise settles with (the error is thrown
  again after \<open>finally\<close>).
\<close>

definition handleIndexDocuments ::
  "IndexEnv \<Rightarrow> File list \<Rightarrow> thrown + IndexDocumentsResponse \<Rightarrow> Dashboard \<Rightarrow>
   Dashboard \<times> (thrown + IndexDocumentsResponse \<times> jsstring)" where
  "handleIndexDocuments env files outcome st =
     (indexSettle (indexSuccess env files) outcome (indexEntry st),
      case outcome of
        Inr resp \<Rightarrow> Inr (resp, completedAt env)
      | Inl err \<Rightarrow> Inl err)"

text \<open>
  The indexing lifecycle: calls of \<open>handleIndexDocuments\<close> one after the other, each with
  its files, its environment and the outcome of its request. The list holds every state
  the component is in, from the state the first call starts in.
\<close>

record IndexCall =
  call_env :: IndexEnv
  call_files :: "File list"
  call_outcome :: "thrown + IndexDocumentsResponse"

fun lifecycle ::
  "(IndexEnv \<Rightarrow> File list \<Rightarrow> IndexDocumentsResponse \<Rightarrow> Dashboard \<Rightarrow> Dashboard) \<Rightarrow>
   IndexCall list \<Rightarrow> Dashboard \<Rightarrow> Dashboard list" where
  "lifecycle success [] st = [st]"
| "lifecycle success (c # cs) st =
     st # indexEntry st #
     lifecycle success cs
       (indexSettle (success (call_env c) (call_files c)) (call_outcome c) (indexEntry st))"

text \<open>Concrete inputs for the examples below.\<close>

definition exampleIndexEnv :: IndexEnv where
  "exampleIndexEnv =
     \<lparr>completedAt = js ''2024-05-01T10:00:00.000Z'',
      generateId = (\<lambda>i. js ''id-'' @ toString i),
      localeCompare = codeUnitCompare\<rparr>"

definition exampleFiles :: "File list" where
  "exampleFiles = [\<lparr>file_name = js ''a.pdf'', file_size = 1024\<rparr>]"

definition exampleConversation :: Conversation where
  "exampleConversation =
     \<lparr>conv_id = js ''1'', title = js ''New Chat'', model = js ''Flash'', timestamp = js ''09:49 PM''\<rparr>"

section \<open>Properties of the answer parser\<close>

subsection \<open>Trimming\<close>

lemma bracket_not_white: "\<not> isWhiteSpace LBRACKET" "\<not> isWhiteSpace RBRACKET"
  by (simp_all add: isWhiteSpace_def LBRACKET_def RBRACKET_def)

lemma newline_not_bracket: "NEWLINE \<noteq> LBRACKET" "NEWLINE \<noteq> RBRACKET" "LBRACKET \<noteq> RBRACKET"
  by (simp_all add: NEWLINE_def LBRACKET_def RBRACKET_def)

lemma trimEnd_Nil: "trimEnd [] = []"
  by (simp add: trimEnd_def)

lemma trimEnd_Cons:
  "trimEnd (c # cs) = (if trimEnd cs = [] \<and> isWhiteSpace c then [] else c # trimEnd cs)"
  by (auto simp: trimEnd_def dropWhile_append dropWhile_eq_Nil_conv)

lemma trimEnd_eq_Nil: "trimEnd s = [] \<longleftrightarrow> (\<forall>c\<in>set s. isWhiteSpace c)"
  by (simp add: trimEnd_def dropWhile_eq_Nil_conv)

lemma trimStart_eq_Nil: "trimStart s = [] \<longleftrightarrow> (\<forall>c\<in>set s. isWhiteSpace c)"
  by (simp add: trimStart_def dropWhile_eq_Nil_conv)

lemma trimStart_hd: "trimStart s \<noteq> [] \<Longrightarrow> \<not> isWhiteSpace (hd (trimStart s))"
  unfolding trimStart_def by (rule hd_dropWhile)

lemma trimEnd_last: "trimEnd s \<noteq> [] \<Longrightarrow> \<not> isWhiteSpace (last (trimEnd s))"
  unfolding trimEnd_def by (simp add: last_rev hd_dropWhile)

lemma trimEnd_hd: "trimEnd s \<noteq> [] \<Longrightarrow> hd (trimEnd s) = hd s"
  by (cases s) (auto simp: trimEnd_Nil trimEnd_Cons split: if_splits)

lemma set_trimEnd: "set (trimEnd s) \<subseteq> set s"
  by (induction s) (auto simp: trimEnd_Nil trimEnd_Cons)

lemma trimStart_id: "s = [] \<or> \<not> isWhiteSpace (hd s) \<Longrightarrow> trimStart s = s"
  by (cases s) (auto simp: trimStart_def)

lemma trimEnd_id: "s = [] \<or> \<not> isWhiteSpace (last s) \<Longrightarrow> trimEnd s = s"
  by (cases s rule: rev_cases) (auto simp: trimEnd_def)

lemma trim_eq_Nil: "trim s = [] \<longleftrightarrow> (\<forall>c\<in>set s. isWhiteSpace c)"
proof
  assume "trim s = []"
  then have all: "\<forall>c\<in>set (trimStart s). isWhiteSpace c"
    by (simp add: trim_def trimEnd_eq_Nil)
  have "trimStart s = []"
  proof (rule ccontr)
    assume ne: "trimStart s \<noteq> []"
    then have "hd (trimStart s) \<in> set (trimStart s)" by simp
    with all trimStart_hd [OF ne] show False by blast
  qed
  then show "\<forall>c\<in>set s. isWhiteSpace c" by (simp add: trimStart_eq_Nil)
next
  assume "\<forall>c\<in>set s. isWhiteSpace c"
  then have "trimStart s = []" by (simp add: trimStart_eq_Nil)
  then show "trim s = []" by (simp add: trim_def trimEnd_Nil)
qed

lemma trim_trim: "trim (trim s) = trim s"
proof (cases "trim s = []")
  case True
  moreover have "trim [] = []" by (simp add: trim_eq_Nil)
  ultimately show ?thesis by simp
next
  case False
  then have ne: "trimEnd (trimStart s) \<noteq> []" by (simp add: trim_def)
  then have ne': "trimStart s \<noteq> []" by (auto simp: trimEnd_Nil)
  have "hd (trim s) = hd (trimStart s)"
    using trimEnd_hd [OF ne] by (simp add: trim_def)
  with trimStart_hd [OF ne'] have "\<not> isWhiteSpace (hd (trim s))" by simp
  then have 1: "trimStart (trim s) = trim s" by (simp add: trimStart_id)
  have "\<not> isWhiteSpace (last (trim s))"
    using trimEnd_last [OF ne] by (simp add: trim_def)
  then have "trimEnd (trim s) = trim s" by (simp add: trimEnd_id)
  with 1 show ?thesis by (simp add: trim_def [of "trim s"])
qed

subsection \<open>Matches\<close>

lemma takeWhile_eq_Nil: "takeWhile P cs = [] \<longleftrightarrow> cs = [] \<or> \<not> P (hd cs)"
  by (cases cs) auto

lemma matchBracket_None:
  "matchBracket (c # cs) = None \<longleftrightarrow> c \<noteq> LBRACKET \<or> \<not> matchesAt cs"
  by (auto simp: matchBracket_def matchesAt_def Let_def takeWhile_eq_Nil dropWhile_eq_Nil_conv)

lemma matchAll_Nil_iff: "matchAll s = [] \<longleftrightarrow> bracketFree s"
proof (induction s rule: matchAll.induct)
  case 1
  show ?case by simp
next
  case (2 c cs)
  show ?case
  proof (cases "matchBracket (c # cs)")
    case None
    then have "c \<noteq> LBRACKET \<or> \<not> matchesAt cs" by (simp add: matchBracket_None)
    with 2 None show ?thesis by auto
  next
    case (Some p)
    then have "matchBracket (c # cs) \<noteq> None" by simp
    then have "c = LBRACKET \<and> matchesAt cs" by (simp add: matchBracket_None)
    with Some show ?thesis by (cases p) simp
  qed
qed

lemma set_removeBrackets: "set (removeBrackets s) \<subseteq> set s"
proof (induction s rule: removeBrackets.induct)
  case 1
  show ?case by simp
next
  case (2 c cs)
  show ?case
  proof (cases "matchBracket (c # cs)")
    case None
    with 2 show ?thesis by auto
  next
    case (Some p)
    obtain m rest where p: "p = (m, rest)" by (cases p)
    from Some p have "rest = tl (dropWhile (\<lambda>x. x \<noteq> RBRACKET) cs)"
      by (auto simp: matchBracket_def Let_def split: if_splits)
    then have "set rest \<subseteq> set cs"
      by (metis list.set_sel(2) set_dropWhileD subsetI tl_Nil)
    moreover have "set (removeBrackets rest) \<subseteq> set rest"
      using "2.IH"(2) Some p by blast
    ultimately show ?thesis using Some p by auto
  qed
qed

lemma matchesAt_removeBrackets: "matchesAt (removeBrackets cs) \<Longrightarrow> matchesAt cs"
proof -
  assume a: "matchesAt (removeBrackets cs)"
  then have r: "RBRACKET \<in> set cs" and ne: "removeBrackets cs \<noteq> []"
    and h: "hd (removeBrackets cs) \<noteq> RBRACKET"
    using set_removeBrackets [of cs] by (auto simp: matchesAt_def)
  from ne obtain d ds where cs: "cs = d # ds" by (cases cs) auto
  have "d \<noteq> RBRACKET"
  proof
    assume "d = RBRACKET"
    then have "matchBracket (d # ds) = None"
      by (simp add: matchBracket_def RBRACKET_def LBRACKET_def)
    with cs h \<open>d = RBRACKET\<close> show False by simp
  qed
  with r cs show ?thesis by (simp add: matchesAt_def)
qed

lemma bracketFree_removeBrackets: "bracketFree (removeBrackets s)"
proof (induction s rule: removeBrackets.induct)
  case 1
  show ?case by simp
next
  case (2 c cs)
  show ?case
  proof (cases "matchBracket (c # cs)")
    case None
    then have "c \<noteq> LBRACKET \<or> \<not> matchesAt cs" by (simp add: matchBracket_None)
    with 2 None show ?thesis by (auto dest: matchesAt_removeBrackets)
  next
    case (Some p)
    obtain m rest where p: "p = (m, rest)" by (cases p)
    have "bracketFree (removeBrackets rest)"
      using "2.IH"(2) Some p by blast
    with Some p show ?thesis by simp
  qed
qed

lemma bracketFree_dropWhile: "bracketFree s \<Longrightarrow> bracketFree (dropWhile P s)"
  by (induction s) auto

lemma collapseNewlines_eq_Nil: "collapseNewlines s = [] \<longleftrightarrow> s = []"
  by (cases s) auto

lemma hd_collapseNewlines: "hd (collapseNewlines s) = hd s"
  by (cases s) auto

lemma set_collapseNewlines: "set (collapseNewlines s) = set s"
proof (induction s rule: collapseNewlines.induct)
  case 1
  show ?case by simp
next
  case (2 c cs)
  show ?case
  proof (cases "c = NEWLINE \<and> 2 \<le> length (takeWhile (\<lambda>x. x = NEWLINE) cs)")
    case True
    have "set cs = set (takeWhile (\<lambda>x. x = NEWLINE) cs) \<union> set (dropWhile (\<lambda>x. x = NEWLINE) cs)"
      by (metis set_append takeWhile_dropWhile_id)
    moreover have "set (takeWhile (\<lambda>x. x = NEWLINE) cs) \<subseteq> {NEWLINE}"
      by (auto dest: set_takeWhileD)
    ultimately show ?thesis using True 2 by auto
  next
    case False
    with 2 show ?thesis by auto
  qed
qed

lemma matchesAt_collapseNewlines: "matchesAt (collapseNewlines cs) \<longleftrightarrow> matchesAt cs"
  by (simp add: matchesAt_def collapseNewlines_eq_Nil hd_collapseNewlines set_collapseNewlines)

lemma bracketFree_collapseNewlines: "bracketFree s \<Longrightarrow> bracketFree (collapseNewlines s)"
proof (induction s rule: collapseNewlines.induct)
  case 1
  show ?case by simp
next
  case (2 c cs)
  show ?case
  proof (cases "c = NEWLINE \<and> 2 \<le> length (takeWhile (\<lambda>x. x = NEWLINE) cs)")
    case True
    from "2.prems" have "bracketFree (dropWhile (\<lambda>x. x = NEWLINE) cs)"
      by (simp add: bracketFree_dropWhile)
    with True "2.IH"(1) show ?thesis
      by (simp add: NEWLINE_def LBRACKET_def)
  next
    case False
    with 2 show ?thesis by (auto simp: matchesAt_collapseNewlines)
  qed
qed

lemma matchesAt_trimEnd: "matchesAt (trimEnd cs) \<Longrightarrow> matchesAt cs"
  using set_trimEnd [of cs] by (auto simp: matchesAt_def trimEnd_hd trimEnd_Nil)

lemma bracketFree_trimEnd: "bracketFree s \<Longrightarrow> bracketFree (trimEnd s)"
  by (induction s) (auto simp: trimEnd_Nil trimEnd_Cons dest: matchesAt_trimEnd)

lemma bracketFree_trim: "bracketFree s \<Longrightarrow> bracketFree (trim s)"
  by (simp add: trim_def trimStart_def bracketFree_trimEnd bracketFree_dropWhile)

lemma parseAnswer_bracketFree:
  "bracketFree s \<Longrightarrow> parseAnswer s = (trim s, [])"
  by (simp add: parseAnswer_def matchAll_Nil_iff [symmetric])


lemma matchBracket_other: "c \<noteq> LBRACKET \<Longrightarrow> matchBracket (c # cs) = None"
  by (simp add: matchBracket_def)

lemma removeBrackets_prepend:
  "LBRACKET \<notin> set ws \<Longrightarrow> removeBrackets (ws @ s) = ws @ removeBrackets s"
  by (induction ws) (auto simp: matchBracket_other)

lemma matchBracket_append:
  assumes "RBRACKET \<notin> set ws"
  shows "matchBracket (c # cs @ ws) =
         map_option (\<lambda>(m, rest). (m, rest @ ws)) (matchBracket (c # cs))"
proof (cases "RBRACKET \<in> set cs")
  case False
  with assms have "dropWhile (\<lambda>x. x \<noteq> RBRACKET) (cs @ ws) = []"
    and "dropWhile (\<lambda>x. x \<noteq> RBRACKET) cs = []"
    by (auto simp: dropWhile_eq_Nil_conv)
  then show ?thesis
    by (simp add: matchBracket_def Let_def)
next
  case True
  then have "takeWhile (\<lambda>x. x \<noteq> RBRACKET) (cs @ ws) = takeWhile (\<lambda>x. x \<noteq> RBRACKET) cs"
    and "dropWhile (\<lambda>x. x \<noteq> RBRACKET) (cs @ ws) = dropWhile (\<lambda>x. x \<noteq> RBRACKET) cs @ ws"
    and "dropWhile (\<lambda>x. x \<noteq> RBRACKET) cs \<noteq> []"
    by (auto simp: takeWhile_append1 dropWhile_append1 dropWhile_eq_Nil_conv)
  then show ?thesis
    using True by (auto simp: matchBracket_def Let_def)
qed

lemma removeBrackets_append:
  assumes "LBRACKET \<notin> set ws" "RBRACKET \<notin> set ws"
  shows "removeBrackets (s @ ws) = removeBrackets s @ ws"
proof (induction s rule: removeBrackets.induct)
  case 1
  from assms(1) removeBrackets_prepend [of ws "[]"] show ?case by simp
next
  case (2 c cs)
  show ?case
  proof (cases "matchBracket (c # cs)")
    case None
    then have "matchBracket (c # cs @ ws) = None"
      by (simp add: matchBracket_append [OF assms(2)])
    with None "2.IH"(1) show ?thesis by simp
  next
    case (Some p)
    obtain m rest where p: "p = (m, rest)" by (cases p)
    with Some have "matchBracket (c # cs @ ws) = Some (m, rest @ ws)"
      by (simp add: matchBracket_append [OF assms(2)])
    moreover have "removeBrackets (rest @ ws) = removeBrackets rest @ ws"
      using "2.IH"(2) Some p by blast
    ultimately show ?thesis using Some p by simp
  qed
qed

lemma trim_decompose:
  "\<exists>a b. s = a @ trim s @ b \<and> (\<forall>c\<in>set a. isWhiteSpace c) \<and> (\<forall>c\<in>set b. isWhiteSpace c)"
proof -
  let ?a = "takeWhile isWhiteSpace s"
  let ?b = "rev (takeWhile isWhiteSpace (rev (trimStart s)))"
  have "rev (trimStart s) = rev ?b @ rev (trim s)"
    by (simp add: trim_def trimEnd_def)
  then have "trimStart s = trim s @ ?b"
    by (metis rev_append rev_rev_ident)
  then have "s = ?a @ trim s @ ?b"
    by (metis takeWhile_dropWhile_id trimStart_def)
  moreover have "\<forall>c\<in>set ?a. isWhiteSpace c" by (auto dest: set_takeWhileD)
  moreover have "\<forall>c\<in>set ?b. isWhiteSpace c" by (auto dest: set_takeWhileD)
  ultimately show ?thesis by blast
qed

lemma set_removeBrackets_trim: "set (removeBrackets (trim s)) \<subseteq> set (removeBrackets s)"
proof -
  obtain a b where s: "s = a @ trim s @ b"
    and a: "\<forall>c\<in>set a. isWhiteSpace c" and b: "\<forall>c\<in>set b. isWhiteSpace c"
    using trim_decompose by blast
  from a b bracket_not_white have nb: "LBRACKET \<notin> set a" "LBRACKET \<notin> set b" "RBRACKET \<notin> set b"
    by auto
  have "removeBrackets (a @ trim s @ b) = a @ removeBrackets (trim s) @ b"
    by (simp add: removeBrackets_prepend [OF nb(1)] removeBrackets_append [OF nb(2,3)])
  with s have "removeBrackets s = a @ removeBrackets (trim s) @ b" by simp
  then show ?thesis by auto
qed

lemma stripped_trim_empty:
  assumes "trim (collapseNewlines (removeBrackets s)) = []"
  shows "trim (collapseNewlines (removeBrackets (trim s))) = []"
  using assms set_removeBrackets_trim [of s]
  by (auto simp: trim_eq_Nil set_collapseNewlines)

lemma parseAnswer_fallback:
  assumes "matchAll s \<noteq> []" "trim (collapseNewlines (removeBrackets s)) = []"
  shows "fst (parseAnswer (fst (parseAnswer s))) = fst (parseAnswer s)"
proof -
  from assms have c: "fst (parseAnswer s) = trim s" by (simp add: parseAnswer_def)
  have "fst (parseAnswer (trim s)) = trim (trim s)"
    using stripped_trim_empty [OF assms(2)] by (simp add: parseAnswer_def Let_def)
  with c show ?thesis by (simp add: trim_trim)
qed

lemma parseAnswer_again:
  assumes "matchAll s = [] \<or> trim (collapseNewlines (removeBrackets s)) \<noteq> []"
  shows "parseAnswer (fst (parseAnswer s)) = (fst (parseAnswer s), [])"
proof -
  have "\<exists>t. bracketFree t \<and> fst (parseAnswer s) = trim t"
  proof (cases "matchAll s = []")
    case True
    then show ?thesis by (auto simp: parseAnswer_def matchAll_Nil_iff)
  next
    case False
    with assms have "fst (parseAnswer s) = trim (collapseNewlines (removeBrackets s))"
      by (simp add: parseAnswer_def)
    moreover have "bracketFree (collapseNewlines (removeBrackets s))"
      by (simp add: bracketFree_collapseNewlines bracketFree_removeBrackets)
    ultimately show ?thesis by blast
  qed
  then obtain t where t: "bracketFree t" "fst (parseAnswer s) = trim t" by blast
  then have "parseAnswer (trim t) = (trim (trim t), [])"
    by (simp add: parseAnswer_bracketFree bracketFree_trim)
  with t show ?thesis by (simp add: trim_trim)
qed

subsection \<open>Newlines and references\<close>

lemma collapse_run:
  assumes "b = [] \<or> hd b \<noteq> NEWLINE"
  shows "collapseNewlines (replicate n NEWLINE @ b) =
         (if 3 \<le> n then [NEWLINE, NEWLINE] else replicate n NEWLINE) @ collapseNewlines b"
proof -
  have tw: "takeWhile (\<lambda>x. x = NEWLINE) (replicate m NEWLINE @ b) = replicate m NEWLINE"
    and dw: "dropWhile (\<lambda>x. x = NEWLINE) (replicate m NEWLINE @ b) = b" for m
    using assms by (induction m) (auto simp: takeWhile_eq_Nil_iff dropWhile_eq_self_iff)
  show ?thesis
  proof (cases n)
    case 0
    then show ?thesis by simp
  next
    case (Suc m)
    show ?thesis
    proof (cases "2 \<le> m")
      case True
      with Suc show ?thesis by (simp add: tw dw)
    next
      case False
      then have "m = 0 \<or> m = 1" by arith
      with Suc assms show ?thesis
        by (cases b) (auto simp: tw [of 0, simplified] numeral_3_eq_3)
    qed
  qed
qed

lemma collapse_append:
  "a = [] \<or> last a \<noteq> NEWLINE \<Longrightarrow>
   collapseNewlines (a @ t) = collapseNewlines a @ collapseNewlines t"
proof (induction a rule: collapseNewlines.induct)
  case 1
  show ?case by simp
next
  case (2 c cs)
  show ?case
  proof (cases "cs = []")
    case True
    with "2.prems" have "c \<noteq> NEWLINE" by simp
    with True show ?thesis by simp
  next
    case False
    with "2.prems" have l: "last cs \<noteq> NEWLINE" by simp
    with False have ex: "last cs \<in> set cs" "\<not> (last cs = NEWLINE)" by simp_all
    have tw: "takeWhile (\<lambda>x. x = NEWLINE) (cs @ t) = takeWhile (\<lambda>x. x = NEWLINE) cs"
      using ex by (rule takeWhile_append1)
    have dw: "dropWhile (\<lambda>x. x = NEWLINE) (cs @ t) = dropWhile (\<lambda>x. x = NEWLINE) cs @ t"
      using ex by (rule dropWhile_append1)
    have dne: "dropWhile (\<lambda>x. x = NEWLINE) cs \<noteq> []"
      using ex by (auto simp: dropWhile_eq_Nil_conv)
    have dl: "last (dropWhile (\<lambda>x. x = NEWLINE) cs) \<noteq> NEWLINE"
      using dne l by (metis last_appendR takeWhile_dropWhile_id)
    show ?thesis
    proof (cases "c = NEWLINE \<and> 2 \<le> length (takeWhile (\<lambda>x. x = NEWLINE) cs)")
      case True
      with "2.IH"(1) [OF True] dl show ?thesis by (simp add: tw dw)
    next
      case False
      with "2.IH"(2) [OF False] l show ?thesis by (auto simp: tw)
    qed
  qed
qed

lemma collapse_between:
  assumes "a = [] \<or> last a \<noteq> NEWLINE" and "b = [] \<or> hd b \<noteq> NEWLINE"
  shows "collapseNewlines (a @ replicate n NEWLINE @ b) =
         collapseNewlines a @ (if 3 \<le> n then [NEWLINE, NEWLINE] else replicate n NEWLINE) @
         collapseNewlines b"
  by (simp only: collapse_append [OF assms(1)] collapse_run [OF assms(2)])

lemma collectReferences_distinct:
  "distinct refs \<Longrightarrow> distinct (collectReferences refs ms)"
  by (induction ms arbitrary: refs) (simp_all add: Let_def)

lemma parseAnswer_references_distinct: "distinct (snd (parseAnswer s))"
  by (simp add: parseAnswer_def Let_def collectReferences_distinct)

lemma matchAll_removeBrackets: "matchAll (removeBrackets s) = []"
  by (simp add: matchAll_Nil_iff bracketFree_removeBrackets)

text \<open>
  Claim C2. For the input \<open>"The rule is X [Doc A p.1] and Y [Doc A p.1] [Doc B p.2]"\<close>
  the parser returns the references \<open>"Doc A p.1"\<close> and \<open>"Doc B p.2"\<close>, each once and in
  the order of first occurrence, and the content \<open>"The rule is X  and Y"\<close>. For every
  input in which the pattern matches nowhere, the content is the trimmed input and there
  are no references. What the content is otherwise: for an input with four newlines in a
  row and a reference named twice, two newlines are left and the reference is listed once;
  for every input with a match, the content is the input without its bracketed spans, with
  its newlines collapsed, trimmed (unless nothing is left); the text without the bracketed
  spans has no match left; a run of \<open>n\<close> newlines (code unit 10) between other text
  becomes exactly two newlines when \<open>n\<close> is three or more and stays as it is otherwise;
  and no reference is listed twice.
\<close>

theorem parseAnswer_example_and_plain:
  "parseAnswer (js ''The rule is X [Doc A p.1] and Y [Doc A p.1] [Doc B p.2]'') =
     (js ''The rule is X  and Y'', [js ''Doc A p.1'', js ''Doc B p.2'']) \<and>
   (\<forall>s. matchAll s = [] \<longrightarrow> parseAnswer s = (trim s, [])) \<and>
   parseAnswer (js ''a'' @ [0x0A, 0x0A, 0x0A, 0x0A] @ js ''b [x] [x]'') =
     (js ''a'' @ [0x0A, 0x0A] @ js ''b'', [js ''x'']) \<and>
   (\<forall>s. matchAll s \<noteq> [] \<and> trim (collapseNewlines (removeBrackets s)) \<noteq> [] \<longrightarrow>
        fst (parseAnswer s) = trim (collapseNewlines (removeBrackets s))) \<and>
   (\<forall>s. matchAll (removeBrackets s) = []) \<and>
   (\<forall>a n b. (a = [] \<or> last a \<noteq> 0x0A) \<and> (b = [] \<or> hd b \<noteq> 0x0A) \<longrightarrow>
        collapseNewlines (a @ replicate n 0x0A @ b) =
        collapseNewlines a @ (if 3 \<le> n then [0x0A, 0x0A] else replicate n 0x0A) @
        collapseNewlines b) \<and>
   (\<forall>s. distinct (snd (parseAnswer s)))"
proof (intro conjI allI impI)
  show "parseAnswer (js ''The rule is X [Doc A p.1] and Y [Doc A p.1] [Doc B p.2]'') =
     (js ''The rule is X  and Y'', [js ''Doc A p.1'', js ''Doc B p.2''])"
    by code_simp
  show "parseAnswer (js ''a'' @ [0x0A, 0x0A, 0x0A, 0x0A] @ js ''b [x] [x]'') =
     (js ''a'' @ [0x0A, 0x0A] @ js ''b'', [js ''x''])"
    by code_simp
next
  fix s assume "matchAll s = []"
  then show "parseAnswer s = (trim s, [])" by (simp add: parseAnswer_def)
next
  fix s assume "matchAll s \<noteq> [] \<and> trim (collapseNewlines (removeBrackets s)) \<noteq> []"
  then show "fst (parseAnswer s) = trim (collapseNewlines (removeBrackets s))"
    by (simp add: parseAnswer_def)
next
  fix s show "matchAll (removeBrackets s) = []" by (rule matchAll_removeBrackets)
next
  fix a b :: jsstring and n
  assume "(a = [] \<or> last a \<noteq> 0x0A) \<and> (b = [] \<or> hd b \<noteq> 0x0A)"
  then have "a = [] \<or> last a \<noteq> NEWLINE" "b = [] \<or> hd b \<noteq> NEWLINE"
    by (simp_all add: NEWLINE_def)
  from collapse_between [OF this, of n]
  show "collapseNewlines (a @ replicate n 0x0A @ b) =
        collapseNewlines a @ (if 3 \<le> n then [0x0A, 0x0A] else replicate n 0x0A) @
        collapseNewlines b"
    by (simp add: NEWLINE_def)
next
  fix s show "distinct (snd (parseAnswer s))" by (rule parseAnswer_references_distinct)
qed

theorem parseAnswer_example_and_plain_witness:
  "matchAll (js '' no [] citation here '') = [] \<and>
   parseAnswer (js '' no [] citation here '') = (js ''no [] citation here'', []) \<and>
   matchAll (js ''x'' @ [0x0A, 0x0A, 0x0A] @ js ''y [r]'') \<noteq> [] \<and>
   fst (parseAnswer (js ''x'' @ [0x0A, 0x0A, 0x0A] @ js ''y [r]'')) = js ''x'' @ [0x0A, 0x0A] @ js ''y'' \<and>
   collapseNewlines (js ''x'' @ replicate 5 0x0A @ js ''y'') = js ''x'' @ [0x0A, 0x0A] @ js ''y'' \<and>
   collapseNewlines (js ''x'' @ replicate 2 0x0A @ js ''y'') = js ''x'' @ [0x0A, 0x0A] @ js ''y''"
proof -
  note main = parseAnswer_example_and_plain
  let ?s = "js ''x'' @ [0x0A, 0x0A, 0x0A] @ js ''y [r]''"
  have h: "matchAll (js '' no [] citation here '') = []"
    by code_simp
  have t: "trim (js '' no [] citation here '') = js ''no [] citation here''"
    by code_simp
  from main h
  have 1: "parseAnswer (js '' no [] citation here '') = (trim (js '' no [] citation here ''), [])"
    by blast
  have m: "matchAll ?s \<noteq> []" by code_simp
  have c: "trim (collapseNewlines (removeBrackets ?s)) = js ''x'' @ [0x0A, 0x0A] @ js ''y''"
    by code_simp
  then have "trim (collapseNewlines (removeBrackets ?s)) \<noteq> []" by simp
  with main m have "fst (parseAnswer ?s) = trim (collapseNewlines (removeBrackets ?s))"
    by blast
  with c have 2: "fst (parseAnswer ?s) = js ''x'' @ [0x0A, 0x0A] @ js ''y''" by simp
  have e: "(js ''x'' = [] \<or> last (js ''x'') \<noteq> 0x0A) \<and> (js ''y'' = [] \<or> hd (js ''y'') \<noteq> 0x0A)"
    by code_simp
  have cx: "collapseNewlines (js ''x'') = js ''x''" and cy: "collapseNewlines (js ''y'') = js ''y''"
    by code_simp+
  from main e have "\<And>n. collapseNewlines (js ''x'' @ replicate n 0x0A @ js ''y'') =
        collapseNewlines (js ''x'') @ (if 3 \<le> n then [0x0A, 0x0A] else replicate n 0x0A) @
        collapseNewlines (js ''y'')"
    by blast
  from this [of 5] this [of 2] cx cy
  have 3: "collapseNewlines (js ''x'' @ replicate 5 0x0A @ js ''y'') = js ''x'' @ [0x0A, 0x0A] @ js ''y''"
    and 4: "collapseNewlines (js ''x'' @ replicate 2 0x0A @ js ''y'') = js ''x'' @ [0x0A, 0x0A] @ js ''y''"
    by (simp_all add: numeral_2_eq_2)
  from h 1 t m 2 3 4 show ?thesis by simp
qed

text \<open>
  Claim C7, as the program has it. Parsing the content of a parse gives the same content
  again, for every input. The second parse has no references whenever the first one did
  not fall back to the trimmed input, that is, when the pattern matched nowhere or
  something other than white space was left after the matches were removed. When
  everything but white space was inside brackets, the content is the trimmed input,
  brackets included, and the second parse finds its references again.
\<close>

theorem parseAnswer_idempotent_content:
  "fst (parseAnswer (fst (parseAnswer s))) = fst (parseAnswer s) \<and>
   (matchAll s = [] \<or> trim (collapseNewlines (removeBrackets s)) \<noteq> [] \<longrightarrow>
      snd (parseAnswer (fst (parseAnswer s))) = [])"
proof (cases "matchAll s = [] \<or> trim (collapseNewlines (removeBrackets s)) \<noteq> []")
  case True
  from parseAnswer_again [OF True] show ?thesis by simp
next
  case False
  then show ?thesis using parseAnswer_fallback [of s] by simp
qed

theorem parseAnswer_idempotent_content_witness:
  "trim (collapseNewlines (removeBrackets (js ''See [Doc A] here''))) \<noteq> [] \<and>
   parseAnswer (fst (parseAnswer (js ''See [Doc A] here''))) = (js ''See  here'', []) \<and>
   fst (parseAnswer (js ''See [Doc A] here'')) = js ''See  here''"
proof -
  have h: "trim (collapseNewlines (removeBrackets (js ''See [Doc A] here''))) \<noteq> []"
    by code_simp
  have c: "fst (parseAnswer (js ''See [Doc A] here'')) = js ''See  here''"
    by code_simp
  from parseAnswer_idempotent_content [of "js ''See [Doc A] here''"] h c
  show ?thesis by (simp add: prod_eq_iff)
qed

text \<open>
  Claim C7 as stated fails: the input \<open>"[a]"\<close> is parsed to the content \<open>"[a]"\<close> (nothing
  is left without the bracket, so the trimmed input is shown), and parsing that content
  gives the reference \<open>"a"\<close>, not an empty list.
\<close>

theorem parseAnswer_reparse_counterexample:
  "fst (parseAnswer (js ''[a]'')) = js ''[a]'' \<and>
   snd (parseAnswer (fst (parseAnswer (js ''[a]'')))) = [js ''a'']"
  by code_simp

section \<open>Properties of the chat session\<close>

lemma trim_Nil: "trim [] = []"
  by (simp add: trim_eq_Nil)

lemma usableText_test:
  "(typeof v = TString \<and> trim (stringOf v) \<noteq> []) \<longleftrightarrow> usableText v \<noteq> None"
  by (cases v rule: typeof.cases) (simp_all add: usableText_def trim_Nil)

lemma usableText_truthy:
  "(truthy v \<and> typeof v = TString \<and> trim (stringOf v) \<noteq> []) \<longleftrightarrow> usableText v \<noteq> None"
  by (cases v rule: typeof.cases) (auto simp: usableText_def trim_Nil)

lemma usableText_value: "usableText v = Some t \<Longrightarrow> trim (stringOf v) = t"
  by (cases v rule: typeof.cases) (auto simp: usableText_def split: if_splits)

lemma usableText_object: "truthy v \<and> typeof v = TObject \<Longrightarrow> usableText v = None"
  by (cases v rule: typeof.cases) (auto simp: usableText_def)

lemma usableText_truthy': "usableText v \<noteq> None \<Longrightarrow> truthy v"
  by (cases v rule: typeof.cases) (auto simp: usableText_def trim_Nil split: if_splits)

lemma extractAnswer_usable:
  "extractAnswer stringify d =
     (if usableText (answer d) \<noteq> None then trim (stringOf (answer d))
      else if usableText (response d) \<noteq> None then trim (stringOf (response d))
      else if usableText (result d) \<noteq> None then trim (stringOf (result d))
      else if truthy (data d) \<and> usableText (data d) \<noteq> None then trim (stringOf (data d))
      else if truthy (data d) \<and> typeof (data d) = TObject
        then (case data d of Some v \<Rightarrow> stringify v | None \<Rightarrow> NO_ANSWER)
      else NO_ANSWER)"
  by (simp only: extractAnswer_def usableText_test)

lemma structured_data:
  "usableText v = None \<Longrightarrow>
   (if truthy v \<and> typeof v = TObject
    then (case v of Some x \<Rightarrow> stringify x | None \<Rightarrow> NO_ANSWER) else NO_ANSWER) =
   (case v of
      Some (JArray xs) \<Rightarrow> stringify (JArray xs)
    | Some (JObject kvs) \<Rightarrow> stringify (JObject kvs)
    | _ \<Rightarrow> NO_ANSWER)"
  by (cases v rule: typeof.cases) simp_all

lemma extractAnswer_priority: "extractAnswer stringify d = answerByPriority stringify d"
proof (cases "usableText (answer d)")
  case (Some t)
  then show ?thesis
    by (simp add: extractAnswer_usable answerByPriority_def usableText_value
        List.map_filter_simps)
next
  case a: None
  show ?thesis
  proof (cases "usableText (response d)")
    case (Some t)
    with a show ?thesis
      by (simp add: extractAnswer_usable answerByPriority_def usableText_value
          List.map_filter_simps)
  next
    case b: None
    show ?thesis
    proof (cases "usableText (result d)")
      case (Some t)
      with a b show ?thesis
        by (simp add: extractAnswer_usable answerByPriority_def usableText_value
            List.map_filter_simps)
    next
      case c: None
      show ?thesis
      proof (cases "usableText (data d)")
        case (Some t)
        then have "truthy (data d)" by (simp add: usableText_truthy')
        with a b c Some show ?thesis
          by (simp add: extractAnswer_usable answerByPriority_def usableText_value
              List.map_filter_simps)
      next
        case None
        with a b c structured_data [OF None, of stringify] show ?thesis
          by (simp add: extractAnswer_usable answerByPriority_def List.map_filter_simps)
      qed
    qed
  qed
qed

lemma parse_paris: "parseAnswer (extractAnswer stringify parisResponse) = (js ''Paris'', [])"
proof -
  have "extractAnswer stringify parisResponse = js ''Paris''"
    unfolding extractAnswer_def parisResponse_def by code_simp
  moreover have "parseAnswer (js ''Paris'') = (js ''Paris'', [])" by code_simp
  ultimately show ?thesis by simp
qed

lemma handleSend_accepted:
  assumes "question = trim (case payload of Some p \<Rightarrow> p | None \<Rightarrow> message st)"
    and "question \<noteq> []" and "ready" and "\<not> isSending st"
  shows "handleSend stringify env ready payload st =
     (fst (settleSend stringify (assistantMessageId env) (queryDocuments (fetch env question))
             (acceptSend env question st)),
      QueryCall question #
      snd (settleSend stringify (assistantMessageId env) (queryDocuments (fetch env question))
             (acceptSend env question st)))"
  using assms by (simp add: handleSend_def split_beta Let_def)

lemma settleSend_isSending: "isSending (fst (settleSend stringify aid outcome st)) = False"
  by (cases outcome) (simp_all add: settleSend_def split_beta Let_def)

lemma settleSend_success:
  "messages (fst (settleSend stringify aid (Inr resp) st)) =
     map (\<lambda>item. if msg_id item = aid
                  then item\<lparr>content := fst (parseAnswer (extractAnswer stringify resp)),
                            status := Complete,
                            references := Some (snd (parseAnswer (extractAnswer stringify resp)))\<rparr>
                  else item) (messages st)"
  by (simp add: settleSend_def split_beta)

lemma settleSend_failure:
  "messages (fst (settleSend stringify aid (Inl err) st)) =
     map (\<lambda>item. if msg_id item = aid
                  then item\<lparr>content := describe err, status := Error, references := Some []\<rparr>
                  else item) (messages st)"
  by (simp add: settleSend_def describe_def Let_def)

lemma last_acceptSend: "last (messages (acceptSend env question st)) = pendingAssistant env"
  by (simp add: acceptSend_def)

lemma map_placeholder_last:
  "last (map (\<lambda>item. if msg_id item = assistantMessageId env then upd item else item)
           (messages (acceptSend env question st))) = upd (pendingAssistant env)"
  by (simp add: acceptSend_def pendingAssistant_def)

lemma map_placeholder_fresh:
  assumes "assistantMessageId env \<notin> msg_id ` set (messages st)"
    and "assistantMessageId env \<noteq> userMessageId env"
  shows "map (\<lambda>item. if msg_id item = assistantMessageId env then upd item else item)
           (messages (acceptSend env question st)) =
         messages st @ [userMessage env question, upd (pendingAssistant env)]"
proof -
  have "map (\<lambda>item. if msg_id item = assistantMessageId env then upd item else item) (messages st)
        = messages st"
    using assms(1) by (intro map_idI) (auto simp: image_iff)
  with assms(2) show ?thesis
    by (simp add: acceptSend_def pendingAssistant_def userMessage_def)
qed

lemma QUERY_FAILED_nonempty: "QUERY_FAILED \<noteq> []"
  by (simp add: QUERY_FAILED_def)

lemma describe_nonempty: "err \<noteq> ErrorObject [] \<Longrightarrow> describe err \<noteq> []"
  by (cases err) (simp_all add: describe_def QUERY_FAILED_nonempty)

lemma queryDocuments_http_failure:
  "\<not> ok r \<Longrightarrow> \<exists>m. queryDocuments (Resolved r) = Inl (ErrorObject m) \<and> m \<noteq> []"
  by (simp add: queryDocuments_def js_def)

text \<open>
  Claim C4. If the question (the payload, or else the text of the input box) is empty or
  only white space, or the session is not ready, or a send is in flight, then
  \<open>handleSend\<close> does nothing: the state, and with it the message list, is the one it
  started from, and no effect is issued, so the remote query is not called.
\<close>

theorem handleSend_rejected:
  "trim (case payload of Some p \<Rightarrow> p | None \<Rightarrow> message st) = [] \<or> \<not> ready \<or> isSending st \<Longrightarrow>
   handleSend stringify env ready payload st = (st, [])"
  by (auto simp: handleSend_def)

theorem handleSend_rejected_witness:
  "trim (js ''   '') = [] \<and>
   handleSend (\<lambda>v. []) (exampleEnv (Rejected OtherValue)) True (Some (js ''   '')) exampleChat =
     (exampleChat, [])"
proof -
  have h: "trim (js ''   '') = []" by code_simp
  then have "trim (case Some (js ''   '') of Some p \<Rightarrow> p | None \<Rightarrow> message exampleChat) = []
      \<or> \<not> True \<or> isSending exampleChat"
    by simp
  from handleSend_rejected [OF this] h show ?thesis by simp
qed


text \<open>
  Claim C3. For every response object, \<open>extractAnswer\<close> returns the first non-empty value
  among the fields \<open>answer\<close>, \<open>response\<close>, \<open>result\<close> and a string-typed \<open>data\<close>
  (non-empty after trimming, and returned trimmed); failing that, \<open>data\<close> serialised when
  it is structured, that is an array or an object; failing that the fixed text. And for
  every session in which a send is accepted and the query succeeds with
  \<open>{"answer": "Paris"}\<close>, the assistant placeholder, which was the last message with
  status \<open>loading\<close>, ends as the last message with status \<open>complete\<close>, content
  \<open>"Paris"\<close> and no references.
\<close>

theorem extractAnswer_priority_and_paris:
  "(\<forall>d. extractAnswer stringify d = answerByPriority stringify d) \<and>
   (question = trim (case payload of Some p \<Rightarrow> p | None \<Rightarrow> message st) \<and> question \<noteq> [] \<and>
    ready \<and> \<not> isSending st \<and> queryDocuments (fetch env question) = Inr parisResponse \<longrightarrow>
      last (messages (acceptSend env question st)) = pendingAssistant env \<and>
      status (pendingAssistant env) = Loading \<and>
      last (messages (fst (handleSend stringify env ready payload st))) =
        (pendingAssistant env)\<lparr>content := js ''Paris'', status := Complete, references := Some []\<rparr>)"
proof (intro conjI allI impI)
  fix d show "extractAnswer stringify d = answerByPriority stringify d"
    by (rule extractAnswer_priority)
next
  assume a: "question = trim (case payload of Some p \<Rightarrow> p | None \<Rightarrow> message st) \<and> question \<noteq> [] \<and>
    ready \<and> \<not> isSending st \<and> queryDocuments (fetch env question) = Inr parisResponse"
  show "last (messages (acceptSend env question st)) = pendingAssistant env"
    by (rule last_acceptSend)
  show "status (pendingAssistant env) = Loading"
    by (simp add: pendingAssistant_def)
  from a have q: "question = trim (case payload of Some p \<Rightarrow> p | None \<Rightarrow> message st)"
    "question \<noteq> []" "ready" "\<not> isSending st"
    and qd: "queryDocuments (fetch env question) = Inr parisResponse"
    by blast+
  have "fst (handleSend stringify env ready payload st) =
        fst (settleSend stringify (assistantMessageId env) (Inr parisResponse)
               (acceptSend env question st))"
    by (simp only: handleSend_accepted [OF q, of stringify env] qd fst_conv)
  then show "last (messages (fst (handleSend stringify env ready payload st))) =
        (pendingAssistant env)\<lparr>content := js ''Paris'', status := Complete, references := Some []\<rparr>"
    by (simp add: settleSend_success parse_paris map_placeholder_last)
qed

theorem extractAnswer_priority_and_paris_witness:
  "trim (js ''Capital of France?'') \<noteq> [] \<and>
   queryDocuments
     (fetch (exampleEnv (Resolved \<lparr>ok = True, statusCode = 200, json_body = Inr parisResponse\<rparr>))
        (trim (js ''Capital of France?''))) = Inr parisResponse \<and>
   last (messages (fst (handleSend (\<lambda>v. [])
       (exampleEnv (Resolved \<lparr>ok = True, statusCode = 200, json_body = Inr parisResponse\<rparr>))
       True (Some (js ''Capital of France?'')) exampleChat))) =
     \<lparr>msg_id = js ''a1'', role = Assistant, content = js ''Paris'', status = Complete,
      createdAt = js ''2024-05-01T10:00:00.000Z'', references = Some []\<rparr>"
proof -
  let ?env = "exampleEnv (Resolved \<lparr>ok = True, statusCode = 200, json_body = Inr parisResponse\<rparr>)"
  let ?q = "trim (js ''Capital of France?'')"
  have 1: "?q \<noteq> []" by code_simp
  have 2: "queryDocuments (fetch ?env ?q) = Inr parisResponse"
    by (simp add: queryDocuments_def exampleEnv_def)
  have 3: "\<not> isSending exampleChat" by (simp add: exampleChat_def)
  have 4: "?q = trim (case Some (js ''Capital of France?'') of Some p \<Rightarrow> p | None \<Rightarrow> message exampleChat)"
    by simp
  from extractAnswer_priority_and_paris
    [where stringify = "\<lambda>v. []" and question = ?q and payload = "Some (js ''Capital of France?'')"
       and st = exampleChat and ready = True and env = ?env] 1 2 3 4
  have "last (messages (fst (handleSend (\<lambda>v. []) ?env True (Some (js ''Capital of France?'')) exampleChat))) =
        (pendingAssistant ?env)\<lparr>content := js ''Paris'', status := Complete, references := Some []\<rparr>"
    by blast
  with 1 2 show ?thesis by (simp add: pendingAssistant_def exampleEnv_def)
qed

text \<open>
  Claim C5, as the program has it. For every accepted send, with identifiers from
  \<open>generateId\<close> that are new: \<open>isSending\<close> is false when \<open>handleSend\<close> is done, whatever
  the outcome of the query. When the query fails, the message list is the old one followed
  by the user message and the placeholder, the placeholder now with status \<open>error\<close> and with
  the message of the failure as content when the failure is an \<open>Error\<close> object, the fixed
  text otherwise. That content is not empty unless the failure is an \<open>Error\<close> with an empty
  message; it is never empty for a response that is not \<open>ok\<close>, whose message is
  \<open>Query request failed with status \<dots>\<close>.
\<close>

theorem handleSend_settles:
  assumes "question = trim (case payload of Some p \<Rightarrow> p | None \<Rightarrow> message st)"
    and "question \<noteq> []" and "ready" and "\<not> isSending st"
    and "assistantMessageId env \<notin> msg_id ` set (messages st)"
    and "assistantMessageId env \<noteq> userMessageId env"
  shows "isSending (fst (handleSend stringify env ready payload st)) = False \<and>
     status (last (messages (acceptSend env question st))) = Loading \<and>
     (\<forall>err. queryDocuments (fetch env question) = Inl err \<longrightarrow>
        messages (fst (handleSend stringify env ready payload st)) =
          messages st @
            [userMessage env question,
             (pendingAssistant env)\<lparr>content := (case err of ErrorObject m \<Rightarrow> m | OtherValue \<Rightarrow> QUERY_FAILED),
                                     status := Error, references := Some []\<rparr>] \<and>
        (err \<noteq> ErrorObject [] \<longrightarrow>
           (case err of ErrorObject m \<Rightarrow> m | OtherValue \<Rightarrow> QUERY_FAILED) \<noteq> [])) \<and>
     (\<forall>r. fetch env question = Resolved r \<and> \<not> ok r \<longrightarrow>
        status (last (messages (fst (handleSend stringify env ready payload st)))) = Error \<and>
        content (last (messages (fst (handleSend stringify env ready payload st)))) \<noteq> [])"
proof -
  note h = handleSend_accepted [OF assms(1-4), of stringify env]
  have 1: "isSending (fst (handleSend stringify env ready payload st)) = False"
    by (simp add: h settleSend_isSending)
  have 2: "status (last (messages (acceptSend env question st))) = Loading"
    by (simp add: last_acceptSend pendingAssistant_def)
  have 3: "messages (fst (handleSend stringify env ready payload st)) =
          messages st @
            [userMessage env question,
             (pendingAssistant env)\<lparr>content := describe err, status := Error, references := Some []\<rparr>]"
    if "queryDocuments (fetch env question) = Inl err" for err
    using that by (simp add: h settleSend_failure map_placeholder_fresh [OF assms(5,6)])
  have 4: "status (last (messages (fst (handleSend stringify env ready payload st)))) = Error \<and>
        content (last (messages (fst (handleSend stringify env ready payload st)))) \<noteq> []"
    if "fetch env question = Resolved r \<and> \<not> ok r" for r
  proof -
    from that queryDocuments_http_failure [of r]
    obtain m where m: "queryDocuments (fetch env question) = Inl (ErrorObject m)" "m \<noteq> []"
      by auto
    from 3 [OF m(1)] m(2) show ?thesis by (simp add: describe_def)
  qed
  show ?thesis
  proof (intro conjI allI impI)
    show "isSending (fst (handleSend stringify env ready payload st)) = False" by (rule 1)
    show "status (last (messages (acceptSend env question st))) = Loading" by (rule 2)
  next
    fix err assume "queryDocuments (fetch env question) = Inl err"
    from 3 [OF this]
    show "messages (fst (handleSend stringify env ready payload st)) =
          messages st @
            [userMessage env question,
             (pendingAssistant env)\<lparr>content := (case err of ErrorObject m \<Rightarrow> m | OtherValue \<Rightarrow> QUERY_FAILED),
                                     status := Error, references := Some []\<rparr>]"
      by (simp add: describe_def)
  next
    fix err :: thrown assume "err \<noteq> ErrorObject []"
    from describe_nonempty [OF this]
    show "(case err of ErrorObject m \<Rightarrow> m | OtherValue \<Rightarrow> QUERY_FAILED) \<noteq> []"
      by (simp add: describe_def)
  next
    fix r assume "fetch env question = Resolved r \<and> \<not> ok r"
    from 4 [OF this]
    show "status (last (messages (fst (handleSend stringify env ready payload st)))) = Error"
      and "content (last (messages (fst (handleSend stringify env ready payload st)))) \<noteq> []"
      by simp_all
  qed
qed


theorem handleSend_settles_witness:
  "trim (js ''hi'') \<noteq> [] \<and> js ''a1'' \<noteq> js ''u1'' \<and>
   isSending (fst (handleSend (\<lambda>v. []) (exampleEnv (Rejected (ErrorObject (js ''Failed to fetch''))))
       True (Some (js ''hi'')) exampleChat)) = False \<and>
   messages (fst (handleSend (\<lambda>v. []) (exampleEnv (Rejected (ErrorObject (js ''Failed to fetch''))))
       True (Some (js ''hi'')) exampleChat)) =
     [\<lparr>msg_id = js ''u1'', role = User, content = js ''hi'', status = Complete,
       createdAt = js ''2024-05-01T10:00:00.000Z'', references = None\<rparr>,
      \<lparr>msg_id = js ''a1'', role = Assistant, content = js ''Failed to fetch'', status = Error,
       createdAt = js ''2024-05-01T10:00:00.000Z'', references = Some []\<rparr>]"
proof -
  let ?env = "exampleEnv (Rejected (ErrorObject (js ''Failed to fetch'')))"
  have t: "trim (js ''hi'') = js ''hi''" by code_simp
  have 1: "trim (js ''hi'') = trim (case Some (js ''hi'') of Some p \<Rightarrow> p | None \<Rightarrow> message exampleChat)"
    by simp
  have 2: "trim (js ''hi'') \<noteq> []" by code_simp
  have 3: "\<not> isSending exampleChat" by (simp add: exampleChat_def)
  have 4: "assistantMessageId ?env \<notin> msg_id ` set (messages exampleChat)"
    by (simp add: exampleChat_def)
  have 5: "js ''a1'' \<noteq> js ''u1''" by code_simp
  then have 6: "assistantMessageId ?env \<noteq> userMessageId ?env"
    by (simp add: exampleEnv_def)
  have 7: "queryDocuments (fetch ?env (trim (js ''hi''))) = Inl (ErrorObject (js ''Failed to fetch''))"
    by (simp add: exampleEnv_def queryDocuments_def)
  from handleSend_settles [OF 1 2 TrueI 3 4 6, of "\<lambda>v. []"] 7
  have "isSending (fst (handleSend (\<lambda>v. []) ?env True (Some (js ''hi'')) exampleChat)) = False"
    and "messages (fst (handleSend (\<lambda>v. []) ?env True (Some (js ''hi'')) exampleChat)) =
          messages exampleChat @
            [userMessage ?env (trim (js ''hi'')),
             (pendingAssistant ?env)\<lparr>content := js ''Failed to fetch'',
                                     status := Error, references := Some []\<rparr>]"
    by simp_all
  with 2 5 t show ?thesis
    by (simp add: exampleChat_def exampleEnv_def userMessage_def pendingAssistant_def)
qed

text \<open>
  Claim C5 as stated fails: when the query rejects with an \<open>Error\<close> whose message is
  empty, the placeholder ends with status \<open>error\<close> and empty content, since the message is
  shown as it is.
\<close>

theorem handleSend_failure_counterexample:
  "status (last (messages (fst (handleSend (\<lambda>v. []) (exampleEnv (Rejected (ErrorObject [])))
       True (Some (js ''hi'')) exampleChat)))) = Error \<and>
   content (last (messages (fst (handleSend (\<lambda>v. []) (exampleEnv (Rejected (ErrorObject [])))
       True (Some (js ''hi'')) exampleChat)))) = []"
proof -
  have "trim (js ''hi'') \<noteq> []" by code_simp
  then show ?thesis
    by (simp add: handleSend_def settleSend_def acceptSend_def exampleEnv_def exampleChat_def
        queryDocuments_def pendingAssistant_def userMessage_def Let_def)
qed


section \<open>Properties of the document list\<close>

subsection \<open>Replacing and appending\<close>

lemma findIndex_negative: "findIndex P xs < 0 \<longleftrightarrow> findIndex P xs = - 1"
  by (induction xs) (auto simp: Let_def)

lemma findIndex_lower: "- 1 \<le> findIndex P xs"
  by (induction xs) (auto simp: Let_def)

lemma upsert_Nil: "upsert d [] = [d]"
  by (simp add: upsert_def)

lemma upsert_Cons:
  "upsert d (x # xs) = (if doc_name x = doc_name d then d # xs else x # upsert d xs)"
proof (cases "doc_name x = doc_name d")
  case True
  then show ?thesis by (simp add: upsert_def)
next
  case False
  show ?thesis
  proof (cases "findIndex (\<lambda>item. doc_name item = doc_name d) xs < 0")
    case True
    with False show ?thesis by (simp add: upsert_def Let_def)
  next
    case False
    then have "nat (findIndex (\<lambda>item. doc_name item = doc_name d) xs + 1) =
               Suc (nat (findIndex (\<lambda>item. doc_name item = doc_name d) xs))"
      by simp
    with False \<open>doc_name x \<noteq> doc_name d\<close> show ?thesis
      by (simp add: upsert_def Let_def)
  qed
qed

lemma names_upsert:
  "map doc_name (upsert d xs) =
     (if doc_name d \<in> doc_name ` set xs then map doc_name xs else map doc_name xs @ [doc_name d])"
  by (induction xs) (auto simp: upsert_Nil upsert_Cons)

lemma distinct_upsert:
  "distinct (map doc_name xs) \<Longrightarrow> distinct (map doc_name (upsert d xs))"
  by (simp add: names_upsert)

lemma distinct_fold_upsert:
  "distinct (map doc_name xs) \<Longrightarrow> distinct (map doc_name (fold upsert ds xs))"
  by (induction ds arbitrary: xs) (simp_all add: distinct_upsert)

lemma set_names_fold_upsert:
  "doc_name ` set (fold upsert ds xs) = doc_name ` set xs \<union> doc_name ` set ds"
proof (induction ds arbitrary: xs)
  case Nil
  show ?case by simp
next
  case (Cons d ds)
  have "doc_name ` set (upsert d xs) = insert (doc_name d) (doc_name ` set xs)"
    using names_upsert [of d xs] by (metis (no_types, lifting) insert_absorb list.set_map
        list.simps(15) rotate1.simps(2) set_rotate1)
  with Cons show ?case by auto
qed

lemma set_upsert:
  "distinct (map doc_name xs) \<Longrightarrow>
   set (upsert d xs) = insert d {r \<in> set xs. doc_name r \<noteq> doc_name d}"
  by (induction xs) (auto simp: upsert_Nil upsert_Cons image_iff)

lemma upsert_present:
  "distinct (map doc_name xs) \<Longrightarrow> doc_name d \<in> doc_name ` set xs \<Longrightarrow>
   upsert d xs = map (\<lambda>e. if doc_name e = doc_name d then d else e) xs"
proof (induction xs)
  case Nil
  then show ?case by simp
next
  case (Cons x xs)
  show ?case
  proof (cases "doc_name x = doc_name d")
    case True
    with Cons.prems(1) have "map (\<lambda>e. if doc_name e = doc_name d then d else e) xs = xs"
      by (intro map_idI) (auto simp: image_iff)
    with True show ?thesis by (simp add: upsert_Cons)
  next
    case False
    with Cons show ?thesis by (auto simp: upsert_Cons)
  qed
qed

subsection \<open>Sorting\<close>

lemma set_insertBy: "set (insertBy c x xs) = insert x (set xs)"
  by (induction xs) auto

lemma set_sortBy: "set (sortBy c xs) = set xs"
  by (induction xs) (simp_all add: sortBy_def set_insertBy)

lemma distinct_insertBy:
  "distinct (map f (insertBy c x xs)) \<longleftrightarrow> f x \<notin> f ` set xs \<and> distinct (map f xs)"
  by (induction xs) (auto simp: set_insertBy)

lemma distinct_sortBy: "distinct (map f (sortBy c xs)) \<longleftrightarrow> distinct (map f xs)"
  by (induction xs) (simp_all add: sortBy_def distinct_insertBy set_sortBy [unfolded sortBy_def])

lemma sorted_insertBy:
  assumes total: "\<And>a b. c a b \<le> 0 \<or> c b a \<le> 0"
    and trans: "\<And>a b d. c a b \<le> 0 \<Longrightarrow> c b d \<le> 0 \<Longrightarrow> c a d \<le> 0"
  shows "sorted_wrt (\<lambda>a b. c a b \<le> 0) xs \<Longrightarrow> sorted_wrt (\<lambda>a b. c a b \<le> 0) (insertBy c x xs)"
proof (induction xs)
  case Nil
  show ?case by simp
next
  case (Cons y ys)
  show ?case
  proof (cases "c x y \<le> 0")
    case True
    with Cons.prems trans show ?thesis by auto
  next
    case False
    with total have "c y x \<le> 0" by blast
    with False Cons show ?thesis by (auto simp: set_insertBy)
  qed
qed

lemma sorted_sortBy:
  assumes total: "\<And>a b. c a b \<le> 0 \<or> c b a \<le> 0"
    and trans: "\<And>a b d. c a b \<le> 0 \<Longrightarrow> c b d \<le> 0 \<Longrightarrow> c a d \<le> 0"
  shows "sorted_wrt (\<lambda>a b. c a b \<le> 0) (sortBy c xs)"
proof (induction xs)
  case Nil
  show ?case by (simp add: sortBy_def)
next
  case (Cons x xs)
  from sorted_insertBy [of c, OF total trans Cons]
  show ?case by (simp add: sortBy_def)
qed

lemma sortBy_sorted: "sorted_wrt (\<lambda>a b. c a b \<le> 0) xs \<Longrightarrow> sortBy c xs = xs"
proof (induction xs)
  case Nil
  show ?case by (simp add: sortBy_def)
next
  case (Cons x xs)
  then have "sortBy c xs = xs" by simp
  then have "sortBy c (x # xs) = insertBy c x xs" by (simp add: sortBy_def)
  with Cons.prems show ?case by (cases xs) auto
qed

lemma compareDocuments_total:
  "collation cmp \<Longrightarrow> compareDocuments cmp a b \<le> 0 \<or> compareDocuments cmp b a \<le> 0"
  unfolding collation_def compareDocuments_def by blast

lemma compareDocuments_trans:
  "collation cmp \<Longrightarrow> compareDocuments cmp a b \<le> 0 \<Longrightarrow> compareDocuments cmp b d \<le> 0 \<Longrightarrow>
   compareDocuments cmp a d \<le> 0"
  unfolding collation_def compareDocuments_def by blast

lemma sorted_mergeDocuments:
  assumes "collation cmp"
  shows "sorted_wrt (\<lambda>a b. compareDocuments cmp a b \<le> 0) (mergeDocuments cmp prev new)"
  unfolding mergeDocuments_def
  by (rule sorted_sortBy)
     (rule compareDocuments_total [OF assms], erule (1) compareDocuments_trans [OF assms])

lemma distinct_mergeDocuments:
  "distinct (map doc_name prev) \<Longrightarrow> distinct (map doc_name (mergeDocuments cmp prev new))"
  by (simp add: mergeDocuments_def distinct_sortBy distinct_fold_upsert)

lemma mergeAll_snoc:
  "mergeAll cmp (batches @ [new]) = mergeDocuments cmp (mergeAll cmp batches) new"
  by (simp add: mergeAll_def)

lemma distinct_mergeAll: "distinct (map doc_name (mergeAll cmp batches))"
  by (induction batches rule: rev_induct)
     (simp_all add: mergeAll_snoc distinct_mergeDocuments, simp add: mergeAll_def)

lemma sorted_mergeAll:
  assumes "collation cmp"
  shows "sorted_wrt (\<lambda>a b. compareDocuments cmp a b \<le> 0) (mergeAll cmp batches)"
  by (cases batches rule: rev_cases)
     (simp_all add: mergeAll_snoc sorted_mergeDocuments [OF assms], simp add: mergeAll_def)


lemma collation_codeUnitCompare: "collation codeUnitCompare"
  unfolding collation_def codeUnitCompare_def
  by (auto simp: not_less dest: less_trans)

text \<open>
  Claim C1. For every sequence of merges that starts from the empty document list, the
  result has at most one entry for each name and is sorted descending by \<open>indexedAt\<close>,
  an absent \<open>indexedAt\<close> counting as the empty string: no entry collates above an entry
  before it. In particular nothing that follows an entry with an absent or empty
  \<open>indexedAt\<close> collates above the empty string, so these entries come last. The order is
  the one of \<open>localeCompare\<close>, of which only consistency is assumed.
\<close>

theorem mergeAll_distinct_sorted:
  "collation cmp \<Longrightarrow>
   distinct (map doc_name (mergeAll cmp batches)) \<and>
   sorted_wrt (\<lambda>a b. cmp (orEmpty (indexedAt b)) (orEmpty (indexedAt a)) \<le> 0)
     (mergeAll cmp batches) \<and>
   (\<forall>i j. i < j \<and> j < length (mergeAll cmp batches) \<and>
          orEmpty (indexedAt (mergeAll cmp batches ! i)) = [] \<longrightarrow>
          cmp (orEmpty (indexedAt (mergeAll cmp batches ! j))) [] \<le> 0)"
proof -
  assume c: "collation cmp"
  have s: "sorted_wrt (\<lambda>a b. cmp (orEmpty (indexedAt b)) (orEmpty (indexedAt a)) \<le> 0)
     (mergeAll cmp batches)"
    using sorted_mergeAll [OF c, of batches] by (simp add: compareDocuments_def)
  have "cmp (orEmpty (indexedAt (mergeAll cmp batches ! j))) [] \<le> 0"
    if "i < j \<and> j < length (mergeAll cmp batches) \<and>
        orEmpty (indexedAt (mergeAll cmp batches ! i)) = []" for i j
  proof -
    from s have "\<forall>i j. i < j \<longrightarrow> j < length (mergeAll cmp batches) \<longrightarrow>
        cmp (orEmpty (indexedAt (mergeAll cmp batches ! j)))
          (orEmpty (indexedAt (mergeAll cmp batches ! i))) \<le> 0"
      by (simp add: sorted_wrt_iff_nth_less)
    with that have "cmp (orEmpty (indexedAt (mergeAll cmp batches ! j)))
          (orEmpty (indexedAt (mergeAll cmp batches ! i))) \<le> 0"
      by blast
    with that show ?thesis by simp
  qed
  with s distinct_mergeAll [of cmp batches] show ?thesis by blast
qed

theorem mergeAll_distinct_sorted_witness:
  "collation codeUnitCompare \<and>
   mergeAll codeUnitCompare
     [[exampleDocument ''1'' ''a.pdf'' ''2024-05-01T10:00:00.000Z'',
       exampleDocument ''2'' ''b.pdf'' ''2024-05-01T10:00:00.000Z''],
      [exampleDocument ''3'' ''c.pdf'' [],
       exampleDocument ''4'' ''a.pdf'' ''2024-05-02T08:30:00.000Z'']] =
     [exampleDocument ''4'' ''a.pdf'' ''2024-05-02T08:30:00.000Z'',
      exampleDocument ''2'' ''b.pdf'' ''2024-05-01T10:00:00.000Z'',
      exampleDocument ''3'' ''c.pdf'' []] \<and>
   distinct (map doc_name
     [exampleDocument ''4'' ''a.pdf'' ''2024-05-02T08:30:00.000Z'',
      exampleDocument ''2'' ''b.pdf'' ''2024-05-01T10:00:00.000Z'',
      exampleDocument ''3'' ''c.pdf'' []])"
proof -
  let ?batches = "[[exampleDocument ''1'' ''a.pdf'' ''2024-05-01T10:00:00.000Z'',
       exampleDocument ''2'' ''b.pdf'' ''2024-05-01T10:00:00.000Z''],
      [exampleDocument ''3'' ''c.pdf'' [],
       exampleDocument ''4'' ''a.pdf'' ''2024-05-02T08:30:00.000Z'']]"
  have e: "mergeAll codeUnitCompare ?batches =
     [exampleDocument ''4'' ''a.pdf'' ''2024-05-02T08:30:00.000Z'',
      exampleDocument ''2'' ''b.pdf'' ''2024-05-01T10:00:00.000Z'',
      exampleDocument ''3'' ''c.pdf'' []]"
    by code_simp
  from mergeAll_distinct_sorted [OF collation_codeUnitCompare, of ?batches]
  have "distinct (map doc_name (mergeAll codeUnitCompare ?batches))" by blast
  with e collation_codeUnitCompare show ?thesis by simp
qed

subsection \<open>Merging again\<close>

lemma lastNamed_snoc:
  "lastNamed (ds @ [d]) x = (if doc_name d = x then Some d else lastNamed ds x)"
  by (simp add: lastNamed_def)

lemma lastNamed_name: "lastNamed ds x = Some d \<Longrightarrow> doc_name d = x"
  unfolding lastNamed_def by (auto simp: find_Some_iff)

lemma lastNamed_None: "lastNamed ds x = None \<longleftrightarrow> x \<notin> doc_name ` set ds"
  unfolding lastNamed_def by (auto simp: find_None_iff)

lemma fold_upsert_last_wins:
  "distinct (map doc_name xs) \<Longrightarrow> e \<in> set (fold upsert ds xs) \<Longrightarrow>
   doc_name e \<in> doc_name ` set ds \<Longrightarrow> lastNamed ds (doc_name e) = Some e"
proof (induction ds arbitrary: e rule: rev_induct)
  case Nil
  then show ?case by simp
next
  case (snoc d ds)
  let ?R = "fold upsert ds xs"
  have dR: "distinct (map doc_name ?R)" using snoc.prems(1) by (rule distinct_fold_upsert)
  from snoc.prems(2) have "e \<in> set (upsert d ?R)" by simp
  then have e: "e = d \<or> (e \<in> set ?R \<and> doc_name e \<noteq> doc_name d)"
    by (simp add: set_upsert [OF dR])
  show ?case
  proof (cases "doc_name d = doc_name e")
    case True
    with e show ?thesis by (auto simp: lastNamed_snoc)
  next
    case False
    with e snoc.prems(3) have "e \<in> set ?R" "doc_name e \<in> doc_name ` set ds" by auto
    with snoc.IH [OF snoc.prems(1)] False show ?thesis by (simp add: lastNamed_snoc)
  qed
qed

lemma fold_upsert_present:
  "distinct (map doc_name m) \<Longrightarrow> doc_name ` set ds \<subseteq> doc_name ` set m \<Longrightarrow>
   fold upsert ds m =
     map (\<lambda>e. case lastNamed ds (doc_name e) of Some d \<Rightarrow> d | None \<Rightarrow> e) m"
proof (induction ds rule: rev_induct)
  case Nil
  show ?case by (simp add: lastNamed_def)
next
  case (snoc d ds)
  let ?g = "\<lambda>e. case lastNamed ds (doc_name e) of Some d \<Rightarrow> d | None \<Rightarrow> e"
  have name_g: "doc_name (?g e) = doc_name e" for e
    by (cases "lastNamed ds (doc_name e)") (auto dest: lastNamed_name)
  from snoc have IH: "fold upsert ds m = map ?g m" by simp
  have names: "map doc_name (map ?g m) = map doc_name m"
    by (simp add: name_g)
  from snoc.prems(2) have "doc_name d \<in> doc_name ` set m" by auto
  moreover have "doc_name ` set (map ?g m) = doc_name ` set m"
    by (simp add: image_image name_g)
  ultimately have 1: "doc_name d \<in> doc_name ` set (map ?g m)" by simp
  have 2: "distinct (map doc_name (map ?g m))" using snoc.prems(1) by (simp only: names)
  from upsert_present [OF 2 1]
  have "fold upsert (ds @ [d]) m = map (\<lambda>e. if doc_name (?g e) = doc_name d then d else ?g e) m"
    by (simp add: IH comp_def)
  also have "\<dots> = map (\<lambda>e. case lastNamed (ds @ [d]) (doc_name e) of Some d \<Rightarrow> d | None \<Rightarrow> e) m"
    by (rule map_cong) (auto simp: name_g lastNamed_snoc)
  finally show ?case .
qed

lemma fold_upsert_again:
  assumes "distinct (map doc_name xs)" and "set m = set (fold upsert ds xs)"
    and "distinct (map doc_name m)"
  shows "fold upsert ds m = m"
proof -
  have sub: "doc_name ` set ds \<subseteq> doc_name ` set m"
    using assms(2) set_names_fold_upsert [of ds xs] by auto
  have "(case lastNamed ds (doc_name e) of Some d \<Rightarrow> d | None \<Rightarrow> e) = e" if "e \<in> set m" for e
  proof (cases "doc_name e \<in> doc_name ` set ds")
    case True
    with fold_upsert_last_wins [OF assms(1), of e ds] that assms(2) show ?thesis by simp
  next
    case False
    then have "lastNamed ds (doc_name e) = None" by (simp add: lastNamed_None)
    then show ?thesis by simp
  qed
  then have "map (\<lambda>e. case lastNamed ds (doc_name e) of Some d \<Rightarrow> d | None \<Rightarrow> e) m = m"
    by (intro map_idI)
  with fold_upsert_present [OF assms(3) sub] show ?thesis by simp
qed

text \<open>
  Claim C8, as the program has it. For every existing document list with at most one
  entry for each name, as every list built by merges from the empty list is, and for every
  list of new documents, merging the new documents a second time into the merged list
  gives the merged list again, element by element.
\<close>

theorem mergeDocuments_idempotent:
  assumes "collation cmp" and "distinct (map doc_name existing)"
  shows "mergeDocuments cmp (mergeDocuments cmp existing new) new = mergeDocuments cmp existing new"
proof -
  let ?m = "mergeDocuments cmp existing new"
  have 1: "set ?m = set (fold upsert new existing)"
    by (simp add: mergeDocuments_def set_sortBy)
  have 2: "distinct (map doc_name ?m)"
    using assms(2) by (rule distinct_mergeDocuments)
  have "fold upsert new ?m = ?m"
    by (rule fold_upsert_again [OF assms(2) 1 2])
  moreover have "sortBy (compareDocuments cmp) ?m = ?m"
    using sorted_mergeDocuments [OF assms(1)] by (rule sortBy_sorted)
  ultimately show ?thesis by (simp add: mergeDocuments_def [of cmp ?m])
qed

theorem mergeDocuments_idempotent_witness:
  "collation codeUnitCompare \<and>
   distinct (map doc_name [exampleDocument ''1'' ''a.pdf'' ''2024-05-01T10:00:00.000Z'',
                           exampleDocument ''2'' ''b.pdf'' ''2024-04-01T10:00:00.000Z'']) \<and>
   mergeDocuments codeUnitCompare
     (mergeDocuments codeUnitCompare
        [exampleDocument ''1'' ''a.pdf'' ''2024-05-01T10:00:00.000Z'',
         exampleDocument ''2'' ''b.pdf'' ''2024-04-01T10:00:00.000Z'']
        [exampleDocument ''3'' ''b.pdf'' ''2024-06-01T10:00:00.000Z'',
         exampleDocument ''4'' ''c.pdf'' ''2024-06-01T10:00:00.000Z''])
     [exampleDocument ''3'' ''b.pdf'' ''2024-06-01T10:00:00.000Z'',
      exampleDocument ''4'' ''c.pdf'' ''2024-06-01T10:00:00.000Z''] =
     [exampleDocument ''3'' ''b.pdf'' ''2024-06-01T10:00:00.000Z'',
      exampleDocument ''4'' ''c.pdf'' ''2024-06-01T10:00:00.000Z'',
      exampleDocument ''1'' ''a.pdf'' ''2024-05-01T10:00:00.000Z'']"
proof -
  let ?e = "[exampleDocument ''1'' ''a.pdf'' ''2024-05-01T10:00:00.000Z'',
             exampleDocument ''2'' ''b.pdf'' ''2024-04-01T10:00:00.000Z'']"
  let ?n = "[exampleDocument ''3'' ''b.pdf'' ''2024-06-01T10:00:00.000Z'',
             exampleDocument ''4'' ''c.pdf'' ''2024-06-01T10:00:00.000Z'']"
  have d: "distinct (map doc_name ?e)" by code_simp
  have m: "mergeDocuments codeUnitCompare ?e ?n =
     [exampleDocument ''3'' ''b.pdf'' ''2024-06-01T10:00:00.000Z'',
      exampleDocument ''4'' ''c.pdf'' ''2024-06-01T10:00:00.000Z'',
      exampleDocument ''1'' ''a.pdf'' ''2024-05-01T10:00:00.000Z'']"
    by code_simp
  from mergeDocuments_idempotent [OF collation_codeUnitCompare d, of ?n] m
  have "mergeDocuments codeUnitCompare (mergeDocuments codeUnitCompare ?e ?n) ?n =
     [exampleDocument ''3'' ''b.pdf'' ''2024-06-01T10:00:00.000Z'',
      exampleDocument ''4'' ''c.pdf'' ''2024-06-01T10:00:00.000Z'',
      exampleDocument ''1'' ''a.pdf'' ''2024-05-01T10:00:00.000Z'']"
    by simp
  with collation_codeUnitCompare d show ?thesis by blast
qed

text \<open>
  Claim C8 as stated fails for an existing list that holds a name twice. The first merge
  replaces the first entry of that name and sorting then puts the other entry in front of
  it; the second merge replaces the entry that is now first, and the list holds the new
  document twice.
\<close>

theorem mergeDocuments_duplicates_counterexample:
  "mergeDocuments codeUnitCompare
     [exampleDocument ''1'' ''a.pdf'' ''2024-05-01T10:00:00.000Z'',
      exampleDocument ''2'' ''a.pdf'' ''2024-02-01T10:00:00.000Z'']
     [exampleDocument ''3'' ''a.pdf'' ''2024-01-01T10:00:00.000Z''] =
     [exampleDocument ''2'' ''a.pdf'' ''2024-02-01T10:00:00.000Z'',
      exampleDocument ''3'' ''a.pdf'' ''2024-01-01T10:00:00.000Z''] \<and>
   mergeDocuments codeUnitCompare
     (mergeDocuments codeUnitCompare
        [exampleDocument ''1'' ''a.pdf'' ''2024-05-01T10:00:00.000Z'',
         exampleDocument ''2'' ''a.pdf'' ''2024-02-01T10:00:00.000Z'']
        [exampleDocument ''3'' ''a.pdf'' ''2024-01-01T10:00:00.000Z''])
     [exampleDocument ''3'' ''a.pdf'' ''2024-01-01T10:00:00.000Z''] =
     [exampleDocument ''3'' ''a.pdf'' ''2024-01-01T10:00:00.000Z'',
      exampleDocument ''3'' ''a.pdf'' ''2024-01-01T10:00:00.000Z'']"
  by code_simp


section \<open>Properties of the dashboard state\<close>

subsection \<open>The latest indexing time\<close>

lemma Nil_least: "([] :: jsstring) \<le> l"
  by (cases l) simp_all

lemma latestOf_truthy:
  "l \<noteq> [] \<Longrightarrow> latestOf (Some l) d = Some (max (orEmpty (indexedAt d)) l)"
proof (cases "indexedAt d")
  case None
  assume "l \<noteq> []"
  with None Nil_least [of l] show ?thesis
    by (simp add: latestOf_def truthyString_def orEmpty_def max_def)
next
  case (Some t)
  assume "l \<noteq> []"
  with Some Nil_least [of l] show ?thesis
    by (auto simp: latestOf_def truthyString_def orEmpty_def greater_def max_def)
qed

lemma latestOf_falsy: "\<not> truthyString latest \<Longrightarrow> latestOf latest d = indexedAt d"
  by (simp add: latestOf_def)

lemma fold_latestOf_truthy:
  "l \<noteq> [] \<Longrightarrow>
   fold (\<lambda>doc latest. latestOf latest doc) ds (Some l) =
   Some (fold max (map (\<lambda>d. orEmpty (indexedAt d)) ds) l)"
proof (induction ds arbitrary: l)
  case Nil
  show ?case by simp
next
  case (Cons d ds)
  from Cons.prems have "max (orEmpty (indexedAt d)) l \<noteq> []"
    by (auto simp: max_def)
  from Cons.IH [OF this] Cons.prems show ?case
    by (simp add: latestOf_truthy)
qed

lemma Max_keys_Cons:
  "Max ((\<lambda>d. orEmpty (indexedAt d)) ` set (d # ds)) =
   fold max (map (\<lambda>d. orEmpty (indexedAt d)) ds) (orEmpty (indexedAt d))"
  using Max.set_eq_fold [of "orEmpty (indexedAt d)" "map (\<lambda>d. orEmpty (indexedAt d)) ds"]
  by simp

lemma fold_latestOf_falsy:
  "\<not> truthyString latest \<Longrightarrow> ds \<noteq> [] \<Longrightarrow>
   fold (\<lambda>doc latest. latestOf latest doc) ds latest =
     (if \<exists>d\<in>set ds. truthyString (indexedAt d)
      then Some (Max ((\<lambda>d. orEmpty (indexedAt d)) ` set ds))
      else indexedAt (last ds))"
proof (induction ds arbitrary: latest)
  case Nil
  then show ?case by simp
next
  case (Cons d ds)
  show ?case
  proof (cases "truthyString (indexedAt d)")
    case True
    then obtain t where t: "indexedAt d = Some t" "t \<noteq> []"
      by (auto simp: truthyString_def)
    with Cons.prems(1) True show ?thesis
      using fold_latestOf_truthy [of t ds] Max_keys_Cons [of d ds]
      by (simp add: latestOf_falsy orEmpty_def)
  next
    case False
    then have key: "orEmpty (indexedAt d) = []"
      by (auto simp: truthyString_def orEmpty_def split: option.splits)
    show ?thesis
    proof (cases "ds = []")
      case True
      with False Cons.prems(1) show ?thesis by (simp add: latestOf_falsy)
    next
      case ne: False
      have "Max (insert [] ((\<lambda>d. orEmpty (indexedAt d)) ` set ds)) =
            Max ((\<lambda>d. orEmpty (indexedAt d)) ` set ds)"
        using ne by (simp add: max_def Nil_least)
      with Cons.IH [OF False ne] False ne Cons.prems(1) key show ?thesis
        by (simp add: latestOf_falsy)
    qed
  qed
qed

lemma latestIndexedAt_max:
  assumes "docs \<noteq> []"
    and "(\<forall>d\<in>set docs. wellTyped d) \<or> (\<exists>d\<in>set docs. truthyString (indexedAt d))"
  shows "latestIndexedAt docs = Some (Max ((\<lambda>d. orEmpty (indexedAt d)) ` set docs))"
proof -
  from assms(1) obtain d ds where docs: "docs = d # ds" by (cases docs) auto
  show ?thesis
  proof (cases "orEmpty (indexedAt d) = []")
    case False
    from fold_latestOf_truthy [OF False, of docs] docs Max_keys_Cons [of d ds]
    show ?thesis by (simp add: latestIndexedAt_def)
  next
    case True
    have f: "\<not> truthyString (Some [])" by (simp add: truthyString_def)
    show ?thesis
    proof (cases "\<exists>d\<in>set docs. truthyString (indexedAt d)")
      case True
      with fold_latestOf_falsy [OF f assms(1)] \<open>orEmpty (indexedAt d) = []\<close> docs
      show ?thesis by (simp add: latestIndexedAt_def)
    next
      case False
      with assms(2) have wt: "\<forall>d\<in>set docs. wellTyped d" by blast
      with False have all: "\<forall>d\<in>set docs. indexedAt d = Some []"
        by (fastforce simp: wellTyped_def truthyString_def)
      then have keys: "(\<lambda>d. orEmpty (indexedAt d)) ` set docs = {[]}"
        using assms(1) by (auto simp: orEmpty_def image_iff intro: hd_in_set)
      from all assms(1) have l: "indexedAt (last docs) = Some []" by simp
      have "latestIndexedAt docs = fold (\<lambda>doc latest. latestOf latest doc) docs (Some [])"
        using docs \<open>orEmpty (indexedAt d) = []\<close> by (simp add: latestIndexedAt_def)
      also have "\<dots> = indexedAt (last docs)"
        using fold_latestOf_falsy [OF f assms(1)] False by simp
      also have "\<dots> = Some []" by (rule l)
      finally show ?thesis by (simp add: keys)
    qed
  qed
qed

text \<open>
  Claim C9. With an empty document list the effect leaves \<open>lastIndexedAt\<close> as it is,
  which is absent from the start. For every non-empty list of documents that carry an
  \<open>indexedAt\<close>, as their type requires, \<open>lastIndexedAt\<close> becomes the maximum
  \<open>indexedAt\<close> in the lexicographic order of code units. The same holds when some
  documents lack the field, as long as one \<open>indexedAt\<close> is not empty.
\<close>

theorem latestIndexedAt_effect:
  "lastIndexedAt (latestIndexedAtEffect initialDashboard) = None \<and>
   (documents st = [] \<longrightarrow> latestIndexedAtEffect st = st) \<and>
   (documents st \<noteq> [] \<and>
    ((\<forall>d\<in>set (documents st). wellTyped d) \<or>
     (\<exists>d\<in>set (documents st). truthyString (indexedAt d))) \<longrightarrow>
      lastIndexedAt (latestIndexedAtEffect st) =
        Some (Max ((\<lambda>d. orEmpty (indexedAt d)) ` set (documents st))))"
  by (simp add: latestIndexedAtEffect_def initialDashboard_def latestIndexedAt_max)

theorem latestIndexedAt_effect_witness:
  "documents initialDashboard = [] \<and>
   latestIndexedAtEffect initialDashboard = initialDashboard \<and>
   list_all wellTyped [exampleDocument ''1'' ''a.pdf'' ''2024-05-01T10:00:00.000Z'',
                       exampleDocument ''2'' ''b.pdf'' ''2024-06-01T10:00:00.000Z''] \<and>
   lastIndexedAt (latestIndexedAtEffect
      (initialDashboard\<lparr>documents :=
         [exampleDocument ''1'' ''a.pdf'' ''2024-05-01T10:00:00.000Z'',
          exampleDocument ''2'' ''b.pdf'' ''2024-06-01T10:00:00.000Z'']\<rparr>)) =
     Some (js ''2024-06-01T10:00:00.000Z'')"
proof -
  let ?docs = "[exampleDocument ''1'' ''a.pdf'' ''2024-05-01T10:00:00.000Z'',
                exampleDocument ''2'' ''b.pdf'' ''2024-06-01T10:00:00.000Z'']"
  let ?st = "initialDashboard\<lparr>documents := ?docs\<rparr>"
  have e: "documents initialDashboard = []" by (simp add: initialDashboard_def)
  have w: "\<forall>d\<in>set ?docs. wellTyped d" by (simp add: wellTyped_def exampleDocument_def)
  have m: "Max ((\<lambda>d. orEmpty (indexedAt d)) ` set ?docs) = js ''2024-06-01T10:00:00.000Z''"
    by code_simp
  from latestIndexedAt_effect [of initialDashboard] e
  have 1: "latestIndexedAtEffect initialDashboard = initialDashboard" by blast
  have "documents ?st \<noteq> [] \<and>
    ((\<forall>d\<in>set (documents ?st). wellTyped d) \<or>
     (\<exists>d\<in>set (documents ?st). truthyString (indexedAt d)))"
    using w by simp
  with latestIndexedAt_effect [of ?st]
  have "lastIndexedAt (latestIndexedAtEffect ?st) =
        Some (Max ((\<lambda>d. orEmpty (indexedAt d)) ` set (documents ?st)))"
    by blast
  with m have 2: "lastIndexedAt (latestIndexedAtEffect ?st) = Some (js ''2024-06-01T10:00:00.000Z'')"
    by simp
  from e 1 w 2 show ?thesis unfolding list_all_iff by blast
qed

text \<open>
  Outside the declared type the reduction can end without a value: when no
  \<open>indexedAt\<close> is a non-empty string, the result is the field of the last document.
\<close>

lemma latestIndexedAt_untyped_example:
  "latestIndexedAt
     [\<lparr>doc_id = js ''1'', doc_name = js ''a.pdf'', doc_size = 1024, indexedAt = Some []\<rparr>,
      \<lparr>doc_id = js ''2'', doc_name = js ''b.pdf'', doc_size = 1024, indexedAt = None\<rparr>] = None"
  by code_simp

subsection \<open>The flags of the indexing lifecycle\<close>

lemma indexEntry_flags: "isIndexing (indexEntry st) \<and> \<not> isReady (indexEntry st)"
  by (simp add: indexEntry_def)

lemma indexFinally_flags: "\<not> isIndexing (indexFinally st) \<and> isReady (indexFinally st)"
  by (simp add: indexFinally_def)

lemma indexSettle_flags:
  "\<not> isIndexing (indexSettle success outcome st) \<and> isReady (indexSettle success outcome st)"
  by (cases outcome) (simp_all add: indexSettle_def indexFinally_flags)

lemma lifecycle_flags:
  "\<not> (isIndexing st \<and> isReady st) \<Longrightarrow>
   \<forall>s\<in>set (lifecycle success calls st). \<not> (isIndexing s \<and> isReady s)"
proof (induction calls arbitrary: st)
  case Nil
  then show ?case by simp
next
  case (Cons c cs)
  let ?settled = "indexSettle (success (call_env c) (call_files c)) (call_outcome c) (indexEntry st)"
  have "\<not> (isIndexing ?settled \<and> isReady ?settled)"
    by (simp add: indexSettle_flags)
  from Cons.IH [OF this] Cons.prems indexEntry_flags [of st] show ?case by simp
qed

text \<open>
  Claim C6, for both versions of the page. In every state of the indexing lifecycle, from
  the initial state through any sequence of calls of \<open>handleIndexDocuments\<close>,
  \<open>isIndexing\<close> and \<open>isReady\<close> are not both true. While the request of a call is
  awaited \<open>isIndexing\<close> is true and \<open>isReady\<close> is false, and after the call, whether
  it succeeded or failed, \<open>isIndexing\<close> is false and \<open>isReady\<close> is true.
\<close>

theorem indexing_flags:
  "success = indexSuccess \<or> success = indexSuccessAppend \<Longrightarrow>
   (\<forall>s\<in>set (lifecycle success calls initialDashboard). \<not> (isIndexing s \<and> isReady s)) \<and>
   isIndexing (hd (indexTrace (success env files) outcome st)) \<and>
   \<not> isReady (hd (indexTrace (success env files) outcome st)) \<and>
   \<not> isIndexing (last (indexTrace (success env files) outcome st)) \<and>
   isReady (last (indexTrace (success env files) outcome st)) \<and>
   \<not> isIndexing (fst (handleIndexDocuments env files outcome st)) \<and>
   isReady (fst (handleIndexDocuments env files outcome st))"
proof -
  have "\<not> (isIndexing initialDashboard \<and> isReady initialDashboard)"
    by (simp add: initialDashboard_def)
  from lifecycle_flags [OF this, of success calls] show ?thesis
    using indexEntry_flags [of st] indexSettle_flags
    by (simp add: indexTrace_def handleIndexDocuments_def)
qed

theorem indexing_flags_witness:
  "list_all (\<lambda>s. \<not> (isIndexing s \<and> isReady s))
     (lifecycle indexSuccess
        [\<lparr>call_env = exampleIndexEnv, call_files = exampleFiles,
          call_outcome = Inr \<lparr>idx_message = None\<rparr>\<rparr>,
         \<lparr>call_env = exampleIndexEnv, call_files = exampleFiles,
          call_outcome = Inl (ErrorObject (js ''Index request failed with status 500''))\<rparr>]
        initialDashboard) \<and>
   map (\<lambda>s. (isIndexing s, isReady s))
     (lifecycle indexSuccess
        [\<lparr>call_env = exampleIndexEnv, call_files = exampleFiles,
          call_outcome = Inr \<lparr>idx_message = None\<rparr>\<rparr>,
         \<lparr>call_env = exampleIndexEnv, call_files = exampleFiles,
          call_outcome = Inl (ErrorObject (js ''Index request failed with status 500''))\<rparr>]
        initialDashboard) =
     [(False, True), (True, False), (False, True), (True, False), (False, True)] \<and>
   \<not> isIndexing (fst (handleIndexDocuments exampleIndexEnv exampleFiles
      (Inr \<lparr>idx_message = None\<rparr>) initialDashboard)) \<and>
   isReady (fst (handleIndexDocuments exampleIndexEnv exampleFiles
      (Inr \<lparr>idx_message = None\<rparr>) initialDashboard))"
proof -
  let ?calls = "[\<lparr>call_env = exampleIndexEnv, call_files = exampleFiles,
          call_outcome = Inr \<lparr>idx_message = None\<rparr>\<rparr>,
         \<lparr>call_env = exampleIndexEnv, call_files = exampleFiles,
          call_outcome = Inl (ErrorObject (js ''Index request failed with status 500''))\<rparr>]"
  have h: "indexSuccess = indexSuccess \<or> indexSuccess = indexSuccessAppend" by simp
  have m: "map (\<lambda>s. (isIndexing s, isReady s)) (lifecycle indexSuccess ?calls initialDashboard) =
     [(False, True), (True, False), (False, True), (True, False), (False, True)]"
    by (simp add: initialDashboard_def indexEntry_def indexSettle_def indexFinally_def
        indexSuccess_def)
  from indexing_flags [OF h, of ?calls exampleIndexEnv exampleFiles
      "Inr \<lparr>idx_message = None\<rparr>" initialDashboard] m
  show ?thesis unfolding list_all_iff by blast
qed

subsection \<open>Persistence\<close>

text \<open>
  Claim C10. Where there is a window, the effect on the document list writes the
  serialised list under the document key whatever the list is, the empty list included,
  and so replaces what was stored there; it touches no other key. The effect on the
  conversation list writes a non-empty list under the conversation key and leaves the
  storage as it is when the list is empty.
\<close>

theorem persistDocuments_always_writes:
  "hasWindow \<Longrightarrow>
   persistDocuments hasWindow ser docs store DOCUMENT_STORAGE_KEY = Some (ser docs) \<and>
   persistDocuments hasWindow ser [] store DOCUMENT_STORAGE_KEY = Some (ser []) \<and>
   (\<forall>k. k \<noteq> DOCUMENT_STORAGE_KEY \<longrightarrow> persistDocuments hasWindow ser docs store k = store k) \<and>
   persistConversations hasWindow ser' [] store = store \<and>
   (convs \<noteq> [] \<longrightarrow>
      persistConversations hasWindow ser' convs store CONVERSATION_STORAGE_KEY = Some (ser' convs))"
  by (simp add: persistDocuments_def persistConversations_def)

theorem persistDocuments_always_writes_witness:
  "persistDocuments True (\<lambda>docs. if docs = [] then js ''[]'' else js ''[...]'') []
     [DOCUMENT_STORAGE_KEY \<mapsto> js ''[...]'', CONVERSATION_STORAGE_KEY \<mapsto> js ''[...]'']
     DOCUMENT_STORAGE_KEY = Some (js ''[]'') \<and>
   CONVERSATION_STORAGE_KEY \<noteq> DOCUMENT_STORAGE_KEY \<and>
   persistDocuments True (\<lambda>docs. if docs = [] then js ''[]'' else js ''[...]'') []
     [DOCUMENT_STORAGE_KEY \<mapsto> js ''[...]'', CONVERSATION_STORAGE_KEY \<mapsto> js ''[...]'']
     CONVERSATION_STORAGE_KEY = Some (js ''[...]'') \<and>
   persistConversations True (\<lambda>convs. if convs = [] then js ''[]'' else js ''[...]'') []
     [DOCUMENT_STORAGE_KEY \<mapsto> js ''[...]'', CONVERSATION_STORAGE_KEY \<mapsto> js ''[...]''] =
     [DOCUMENT_STORAGE_KEY \<mapsto> js ''[...]'', CONVERSATION_STORAGE_KEY \<mapsto> js ''[...]''] \<and>
   persistConversations True (\<lambda>convs. if convs = [] then js ''[]'' else js ''[...]'')
     [exampleConversation] Map.empty CONVERSATION_STORAGE_KEY = Some (js ''[...]'')"
proof -
  let ?ser = "\<lambda>docs :: IndexedDocument list. if docs = [] then js ''[]'' else js ''[...]''"
  let ?ser' = "\<lambda>convs :: Conversation list. if convs = [] then js ''[]'' else js ''[...]''"
  let ?store = "[DOCUMENT_STORAGE_KEY \<mapsto> js ''[...]'', CONVERSATION_STORAGE_KEY \<mapsto> js ''[...]'']"
  have k: "CONVERSATION_STORAGE_KEY \<noteq> DOCUMENT_STORAGE_KEY" by code_simp
  have n: "[exampleConversation] \<noteq> []" by simp
  from persistDocuments_always_writes [OF TrueI, of ?ser "[]" ?store ?ser' "[exampleConversation]"]
  have 1: "persistDocuments True ?ser [] ?store DOCUMENT_STORAGE_KEY = Some (?ser [])"
    and 2: "\<forall>k. k \<noteq> DOCUMENT_STORAGE_KEY \<longrightarrow> persistDocuments True ?ser [] ?store k = ?store k"
    and 3: "persistConversations True ?ser' [] ?store = ?store"
    by blast+
  from persistDocuments_always_writes [OF TrueI, of ?ser "[]" Map.empty ?ser' "[exampleConversation]"] n
  have 4: "persistConversations True ?ser' [exampleConversation] Map.empty CONVERSATION_STORAGE_KEY =
           Some (?ser' [exampleConversation])"
    by blast
  from 2 k have 5: "persistDocuments True ?ser [] ?store CONVERSATION_STORAGE_KEY =
      ?store CONVERSATION_STORAGE_KEY" by blast
  from 1 k 5 3 4 show ?thesis by simp
qed


end
